theory Spec2Isabelle
  imports Complex_Main "HOL-Library.Multiset"
begin

section \<open>Values, documents and queries\<close>

text \<open>
  The values a document can hold (\<^verbatim>\<open>DocumentValue\<close>, together with \<^verbatim>\<open>undefined\<close>,
  which the code tests for with \<^verbatim>\<open>isUndefined\<close>). A JavaScript number is a double:
  a finite double is a rational, and the three special values are kept apart, because
  \<^verbatim>\<open>NaN === NaN\<close> is false. The two zeros are one value (\<^verbatim>\<open>-0 === 0\<close>).
  An object is the list of its own enumerable fields in \<^verbatim>\<open>for ... in\<close> order.
\<close>

datatype jsnumber = NaN | PosInfinity | NegInfinity | Finite rat

datatype jsvalue =
    JUndefined
  | JNull
  | JBoolean bool
  | JNumber jsnumber
  | JString string
  | JArray "jsvalue list"
  | JObject "(string \<times> jsvalue) list"

type_synonym document = "(string \<times> jsvalue) list"

datatype error = TypeError string | SyntaxError | ValidationError string | ReadError

text \<open>
  What \<^verbatim>\<open>document[key]\<close> evaluates to. A document is a plain object, so a key it has
  no field for is looked up in \<^verbatim>\<open>Object.prototype\<close>: the read gives the value of the
  own field, or the inherited property when the key names one, or \<^verbatim>\<open>undefined\<close>.
  The inherited properties are the built-in functions listed below: values that are not
  \<^verbatim>\<open>undefined\<close>, not a string, number, boolean or null, and not an array or object
  of a document. They are not enumerable, so \<^verbatim>\<open>for ... in\<close> never yields them.
  The accessor \<^verbatim>\<open>__proto__\<close> is not in the list: the library runs on Deno, which
  removes it from \<^verbatim>\<open>Object.prototype\<close>, so that \<^verbatim>\<open>__proto__\<close> is a key like any
  other there; other runtimes keep it, and the statements below leave that key out.
\<close>

datatype documentValue = Value jsvalue | Inherited string

definition objectPrototype :: "string list" where
  "objectPrototype =
     [''constructor'', ''hasOwnProperty'', ''isPrototypeOf'', ''propertyIsEnumerable'',
      ''toLocaleString'', ''toString'', ''valueOf'', ''__defineGetter__'',
      ''__defineSetter__'', ''__lookupGetter__'', ''__lookupSetter__'']"

definition getField :: "document \<Rightarrow> string \<Rightarrow> documentValue" where
  "getField d key =
     (case map_of d key of
        Some v \<Rightarrow> Value v
      | None \<Rightarrow> if key \<in> set objectPrototype then Inherited key else Value JUndefined)"

text \<open>
  \<^verbatim>\<open>documents[position]\<close> followed by a field access: reading a field of
  \<^verbatim>\<open>undefined\<close> raises a TypeError in JavaScript, so a position outside the array is
  an error of the model.
\<close>

definition getDocument :: "document list \<Rightarrow> nat \<Rightarrow> error + document" where
  "getDocument documents position =
     (if position < length documents then Inr (documents ! position)
      else Inl (TypeError ''Cannot read properties of undefined''))"

text \<open>The boolean coercion of JavaScript (\<^verbatim>\<open>if (x)\<close>, \<^verbatim>\<open>!x\<close>, \<^verbatim>\<open>x ? a : b\<close>).\<close>

fun truthy :: "jsvalue \<Rightarrow> bool" where
  "truthy JUndefined = False"
| "truthy JNull = False"
| "truthy (JBoolean b) = b"
| "truthy (JNumber n) = (n \<noteq> NaN \<and> n \<noteq> Finite 0)"
| "truthy (JString s) = (s \<noteq> [])"
| "truthy (JArray xs) = True"
| "truthy (JObject fs) = True"

text \<open>
  Modelled from the spec: the type tests of \<^verbatim>\<open>utils.ts\<close> (\<^verbatim>\<open>isObject\<close>,
  \<^verbatim>\<open>isArray\<close>, \<^verbatim>\<open>isUndefined\<close>), which is not among the sources. An object is
  an object-shaped value: not an array, not null.
\<close>

fun isObject :: "jsvalue \<Rightarrow> bool" where
  "isObject (JObject fs) = True"
| "isObject v = False"

fun isArray :: "jsvalue \<Rightarrow> bool" where
  "isArray (JArray xs) = True"
| "isArray v = False"

text \<open>
  Modelled from the spec: \<^verbatim>\<open>isObjectEmpty\<close> of \<^verbatim>\<open>utils.ts\<close> (not among the
  sources): the object has no fields.
\<close>

definition isObjectEmpty :: "(string \<times> 'a) list \<Rightarrow> bool" where
  "isObjectEmpty target = (target = [])"

text \<open>
  Modelled from the spec: \<^verbatim>\<open>deepCompare\<close> of \<^verbatim>\<open>utils.ts\<close> (not among the
  sources). Spec 4.1: deep equality, recursively, arrays by length and positional
  equality, objects by field set and per-field equality, mismatched types never equal.
  An inherited property is of another type than every array and object of a query.
\<close>

fun strictEquals :: "jsvalue \<Rightarrow> jsvalue \<Rightarrow> bool" where
  "strictEquals (JNumber n) d = (n \<noteq> NaN \<and> d = JNumber n)"
| "strictEquals JUndefined d = (d = JUndefined)"
| "strictEquals JNull d = (d = JNull)"
| "strictEquals (JBoolean b) d = (d = JBoolean b)"
| "strictEquals (JString s) d = (d = JString s)"
| "strictEquals (JArray xs) d = False"
| "strictEquals (JObject fs) d = False"

fun deepCompare :: "jsvalue \<Rightarrow> jsvalue \<Rightarrow> bool"
  and deepCompareItems :: "jsvalue list \<Rightarrow> jsvalue list \<Rightarrow> bool"
  and deepCompareFields :: "(string \<times> jsvalue) list \<Rightarrow> (string \<times> jsvalue) list \<Rightarrow> bool"
where
  "deepCompare (JArray xs) d = (case d of JArray ys \<Rightarrow> deepCompareItems xs ys | _ \<Rightarrow> False)"
| "deepCompare (JObject fs) d =
     (case d of
        JObject gs \<Rightarrow> set (map fst fs) = set (map fst gs) \<and> deepCompareFields fs gs
      | _ \<Rightarrow> False)"
| "deepCompare JUndefined d = strictEquals JUndefined d"
| "deepCompare JNull d = strictEquals JNull d"
| "deepCompare (JBoolean b) d = strictEquals (JBoolean b) d"
| "deepCompare (JNumber n) d = strictEquals (JNumber n) d"
| "deepCompare (JString s) d = strictEquals (JString s) d"
| "deepCompareItems [] ys = (ys = [])"
| "deepCompareItems (x # xs) ys =
     (case ys of [] \<Rightarrow> False | y # ys' \<Rightarrow> deepCompare x y \<and> deepCompareItems xs ys')"
| "deepCompareFields [] gs = True"
| "deepCompareFields ((key, v) # fs) gs =
     (case map_of gs key of
        None \<Rightarrow> False
      | Some w \<Rightarrow> deepCompare v w \<and> deepCompareFields fs gs)"

definition deepCompareValue :: "jsvalue \<Rightarrow> documentValue \<Rightarrow> bool" where
  "deepCompareValue queryValue documentValue =
     (case documentValue of Value v \<Rightarrow> deepCompare queryValue v | Inherited name \<Rightarrow> False)"

text \<open>
  A query value (\<^verbatim>\<open>QueryValue\<close>): a document value (a literal, an array, an object
  or \<^verbatim>\<open>undefined\<close>), a function of the document value, or a regular expression.
  Neither of the last two is pure in JavaScript. A function may read and write
  whatever it closes over, and \<^verbatim>\<open>RegExp.prototype.test\<close> reads and writes the
  \<^verbatim>\<open>lastIndex\<close> of the expression when it has the \<^verbatim>\<open>g\<close> or the \<^verbatim>\<open>y\<close> flag. So
  both run on a state \<^typ>\<open>'st\<close>, the state of the caller's objects, and return it
  updated; the function returns any value, which the code coerces to a boolean, and
  the regular expression is its \<^verbatim>\<open>test\<close> on a string. Two fields that hold the same
  expression object act on the same part of the state.
\<close>

datatype 'st queryValue =
    QValue jsvalue
  | QFunction "'st \<Rightarrow> documentValue \<Rightarrow> jsvalue \<times> 'st"
  | QRegExp "'st \<Rightarrow> string \<Rightarrow> bool \<times> 'st"

datatype 'st query =
    QueryUndefined
  | QueryFunction "'st \<Rightarrow> jsvalue \<Rightarrow> jsvalue \<times> 'st"
  | QueryObject "(string \<times> 'st queryValue) list"

text \<open>
  A query value is stateless when its result does not depend on the state and it
  leaves the state as it was: every literal, a pure function, a regular expression
  without the \<^verbatim>\<open>g\<close> and \<^verbatim>\<open>y\<close> flags.
\<close>

fun statelessValue :: "'st queryValue \<Rightarrow> bool" where
  "statelessValue (QValue v) = True"
| "statelessValue (QFunction f) = (\<forall>\<sigma> \<sigma>' d. f \<sigma> d = (fst (f \<sigma>' d), \<sigma>))"
| "statelessValue (QRegExp test) = (\<forall>\<sigma> \<sigma>' s. test \<sigma> s = (fst (test \<sigma>' s), \<sigma>))"

definition stateless :: "(string \<times> 'st queryValue) list \<Rightarrow> bool" where
  "stateless fields = list_all (\<lambda>(key, queryValue). statelessValue queryValue) fields"


section \<open>The value matcher\<close>

text \<open>
  \<^verbatim>\<open>matchValues\<close>, in the order of its tests, from the state of the caller's objects
  to the result and the state after the call. \<^verbatim>\<open>test\<close> is called on a string only.
  The final \<^verbatim>\<open>return false\<close> of the source is for values outside
  \<^typ>\<open>'st queryValue\<close> and has no equation.
\<close>

fun matchValues :: "'st queryValue \<Rightarrow> documentValue \<Rightarrow> 'st \<Rightarrow> bool \<times> 'st" where
  "matchValues (QValue (JString s)) documentValue \<sigma> = (documentValue = Value (JString s), \<sigma>)"
| "matchValues (QValue (JNumber n)) documentValue \<sigma> =
     (n \<noteq> NaN \<and> documentValue = Value (JNumber n), \<sigma>)"
| "matchValues (QValue (JBoolean b)) documentValue \<sigma> = (documentValue = Value (JBoolean b), \<sigma>)"
| "matchValues (QValue JNull) documentValue \<sigma> = (documentValue = Value JNull, \<sigma>)"
| "matchValues (QFunction f) documentValue \<sigma> =
     (case f \<sigma> documentValue of (result, \<sigma>') \<Rightarrow> (if truthy result then True else False, \<sigma>'))"
| "matchValues (QRegExp test) documentValue \<sigma> =
     (case documentValue of Value (JString s) \<Rightarrow> test \<sigma> s | _ \<Rightarrow> (False, \<sigma>))"
| "matchValues (QValue (JArray xs)) documentValue \<sigma> =
     (deepCompareValue (JArray xs) documentValue, \<sigma>)"
| "matchValues (QValue (JObject fs)) documentValue \<sigma> =
     (deepCompareValue (JObject fs) documentValue, \<sigma>)"
| "matchValues (QValue JUndefined) documentValue \<sigma> = (documentValue = Value JUndefined, \<sigma>)"

text \<open>Whether the values match, for a call in the state \<open>\<sigma>\<close>.\<close>

definition matched :: "'st queryValue \<Rightarrow> documentValue \<Rightarrow> 'st \<Rightarrow> bool" where
  "matched queryValue documentValue \<sigma> = fst (matchValues queryValue documentValue \<sigma>)"

section \<open>The search engine\<close>

text \<open>
  Modelled from the spec: \<^verbatim>\<open>numbersList\<close> of \<^verbatim>\<open>utils.ts\<close> (not among the
  sources). Spec 4.2: all positions, 0 to the given end, in order. The end is
  \<^verbatim>\<open>documents.length - 1\<close>, which is -1 for no documents.
\<close>

definition numbersList :: "int \<Rightarrow> nat list" where
  "numbersList end = map nat [0..end]"

text \<open>
  Modelled from the spec: \<^verbatim>\<open>cleanArray\<close> of \<^verbatim>\<open>utils.ts\<close> (not among the
  sources). Spec 4.2: the result is compacted and order-preserving, with no gaps. An
  array with deleted slots is a list of options, \<^term>\<open>None\<close> for a hole.
\<close>

fun cleanArray :: "'a option list \<Rightarrow> 'a list" where
  "cleanArray [] = []"
| "cleanArray (None # xs) = cleanArray xs"
| "cleanArray (Some x # xs) = x # cleanArray xs"

text \<open>The loop of a function query: one call per document, in order, from position i.\<close>

fun functionLoop ::
  "('st \<Rightarrow> jsvalue \<Rightarrow> jsvalue \<times> 'st) \<Rightarrow> document list \<Rightarrow> nat \<Rightarrow> 'st \<Rightarrow> nat list \<times> 'st"
where
  "functionLoop query [] i \<sigma> = ([], \<sigma>)"
| "functionLoop query (document # documents) i \<sigma> =
     (case query \<sigma> (JObject document) of
        (isMatched, \<sigma>1) \<Rightarrow>
          (case functionLoop query documents (Suc i) \<sigma>1 of
             (found, \<sigma>2) \<Rightarrow> (if truthy isMatched then i # found else found, \<sigma>2)))"

text \<open>The first search: every document is matched, in order, from position i.\<close>

fun firstSearch ::
  "string \<Rightarrow> 'st queryValue \<Rightarrow> document list \<Rightarrow> nat \<Rightarrow> 'st \<Rightarrow> nat list \<times> 'st"
where
  "firstSearch key queryValue [] i \<sigma> = ([], \<sigma>)"
| "firstSearch key queryValue (document # documents) i \<sigma> =
     (case matchValues queryValue (getField document key) \<sigma> of
        (isMatched, \<sigma>1) \<Rightarrow>
          (case firstSearch key queryValue documents (Suc i) \<sigma>1 of
             (found, \<sigma>2) \<Rightarrow> (if isMatched then i # found else found, \<sigma>2)))"

text \<open>
  A later field: the loop over \<^verbatim>\<open>found\<close>. A hole is skipped; a position whose
  document does not match is deleted, which leaves a hole. The second component is
  ghost state: the number of evaluations of \<^const>\<open>matchValues\<close> the loop made.
\<close>

fun nextSearch ::
  "string \<Rightarrow> 'st queryValue \<Rightarrow> document list \<Rightarrow> nat option list \<Rightarrow> 'st
     \<Rightarrow> error + (nat option list \<times> nat \<times> 'st)"
where
  "nextSearch key queryValue documents [] \<sigma> = Inr ([], 0, \<sigma>)"
| "nextSearch key queryValue documents (None # found) \<sigma> =
     (case nextSearch key queryValue documents found \<sigma> of
        Inl e \<Rightarrow> Inl e
      | Inr (found', n, \<sigma>') \<Rightarrow> Inr (None # found', n, \<sigma>'))"
| "nextSearch key queryValue documents (Some position # found) \<sigma> =
     (case getDocument documents position of
        Inl e \<Rightarrow> Inl e
      | Inr document \<Rightarrow>
          (case matchValues queryValue (getField document key) \<sigma> of
             (isMatched, \<sigma>1) \<Rightarrow>
               (case nextSearch key queryValue documents found \<sigma>1 of
                  Inl e \<Rightarrow> Inl e
                | Inr (found', n, \<sigma>') \<Rightarrow>
                    Inr ((if isMatched then Some position else None) # found', Suc n, \<sigma>'))))"

text \<open>
  The fields after the first, in the order of the query. Two ghost counters are
  carried along: the evaluations of \<^const>\<open>matchValues\<close>, and the fields of the query
  the \<^verbatim>\<open>for ... in\<close> loop has entered.
\<close>

fun nextFields ::
  "(string \<times> 'st queryValue) list \<Rightarrow> document list \<Rightarrow> nat option list \<Rightarrow> nat \<Rightarrow> nat \<Rightarrow> 'st
     \<Rightarrow> error + (nat option list \<times> nat \<times> nat \<times> 'st)"
where
  "nextFields [] documents found n entered \<sigma> = Inr (found, n, entered, \<sigma>)"
| "nextFields ((key, queryValue) # fields) documents found n entered \<sigma> =
     (case nextSearch key queryValue documents found \<sigma> of
        Inl e \<Rightarrow> Inl e
      | Inr (found', m, \<sigma>') \<Rightarrow> nextFields fields documents found' (n + m) (Suc entered) \<sigma>')"

text \<open>
  \<^verbatim>\<open>searchDocuments\<close> with its ghost counters: the positions found, the number of
  evaluations of the query function or of \<^const>\<open>matchValues\<close>, the number of fields
  of the query the loop has entered, and the state of the caller's objects at the
  end. The only \<^verbatim>\<open>return\<close> inside the loop over the fields is the one after the first
  search.
\<close>

fun searchDocumentsCounted ::
  "'st query \<Rightarrow> document list \<Rightarrow> 'st \<Rightarrow> error + (nat list \<times> nat \<times> nat \<times> 'st)"
where
  "searchDocumentsCounted (QueryFunction query) documents \<sigma> =
     (case functionLoop query documents 0 \<sigma> of
        (found, \<sigma>') \<Rightarrow> Inr (found, length documents, 0, \<sigma>'))"
| "searchDocumentsCounted QueryUndefined documents \<sigma> =
     Inr (numbersList (int (length documents) - 1), 0, 0, \<sigma>)"
| "searchDocumentsCounted (QueryObject []) documents \<sigma> =
     Inr (numbersList (int (length documents) - 1), 0, 0, \<sigma>)"
| "searchDocumentsCounted (QueryObject ((key, queryValue) # fields)) documents \<sigma> =
     (case firstSearch key queryValue documents 0 \<sigma> of
        (found, \<sigma>1) \<Rightarrow>
          if length found = 0 then Inr ([], length documents, 1, \<sigma>1)
          else (case nextFields fields documents (map Some found) (length documents) 1 \<sigma>1 of
                  Inl e \<Rightarrow> Inl e
                | Inr (found', n, entered, \<sigma>') \<Rightarrow> Inr (cleanArray found', n, entered, \<sigma>')))"

definition searchDocuments :: "'st query \<Rightarrow> document list \<Rightarrow> 'st \<Rightarrow> error + nat list" where
  "searchDocuments query documents \<sigma> =
     map_sum id fst (searchDocumentsCounted query documents \<sigma>)"

definition matchCount :: "'st query \<Rightarrow> document list \<Rightarrow> 'st \<Rightarrow> nat" where
  "matchCount query documents \<sigma> =
     (case searchDocumentsCounted query documents \<sigma> of
        Inl e \<Rightarrow> 0
      | Inr (found, n, entered, \<sigma>') \<Rightarrow> n)"

definition fieldsEntered :: "'st query \<Rightarrow> document list \<Rightarrow> 'st \<Rightarrow> nat" where
  "fieldsEntered query documents \<sigma> =
     (case searchDocumentsCounted query documents \<sigma> of
        Inl e \<Rightarrow> 0
      | Inr (found, n, entered, \<sigma>') \<Rightarrow> entered)"

text \<open>A document satisfies a field map when every field of the map matches.\<close>

definition matchesFields :: "(string \<times> 'st queryValue) list \<Rightarrow> document \<Rightarrow> 'st \<Rightarrow> bool" where
  "matchesFields fields d \<sigma> =
     list_all (\<lambda>(key, queryValue). matched queryValue (getField d key) \<sigma>) fields"

text \<open>
  The state of \<^verbatim>\<open>found\<close> after some fields: the positions of the first search,
  each kept or replaced by a hole.
\<close>

definition masked :: "(nat \<Rightarrow> bool) \<Rightarrow> nat list \<Rightarrow> nat option list" where
  "masked alive ps = map (\<lambda>p. if alive p then Some p else None) ps"

text \<open>One array of slots comes from another by deleting some of its entries.\<close>

definition thins :: "nat option list \<Rightarrow> nat option list \<Rightarrow> bool" where
  "thins found found' = list_all2 (\<lambda>a b. b = None \<or> b = a) found found'"


subsection \<open>What the loops compute\<close>

lemma numbersList_upt: "numbersList (int n - 1) = [0..<n]"
proof (induction n)
  case 0
  then show ?case by (simp add: numbersList_def)
next
  case (Suc n)
  have "[0..int (Suc n) - 1] = [0..int n - 1] @ [int n]"
    using upto_rec2 [of 0 "int n"] by simp
  then show ?case using Suc by (simp add: numbersList_def)
qed

lemma matchValues_stateless:
  assumes "statelessValue qv"
  shows "matchValues qv dv \<sigma> = (matched qv dv \<sigma>', \<sigma>)"
proof (cases qv)
  case (QValue v)
  then show ?thesis by (cases v) (simp_all add: matched_def)
next
  case (QFunction f)
  obtain r s where r: "f \<sigma>' dv = (r, s)" by (cases "f \<sigma>' dv")
  have "f \<sigma> dv = (fst (f \<sigma>' dv), \<sigma>)" using assms QFunction by simp
  then have "f \<sigma> dv = (r, \<sigma>)" using r by simp
  then show ?thesis using QFunction r by (simp add: matched_def)
next
  case (QRegExp test)
  show ?thesis
  proof (cases dv)
    case (Value v)
    show ?thesis
    proof (cases v)
      case (JString s)
      obtain r t where r: "test \<sigma>' s = (r, t)" by (cases "test \<sigma>' s")
      have "test \<sigma> s = (fst (test \<sigma>' s), \<sigma>)" using assms QRegExp by simp
      then have "test \<sigma> s = (r, \<sigma>)" using r by simp
      then show ?thesis using QRegExp Value JString r by (simp add: matched_def)
    qed (simp_all add: QRegExp Value matched_def)
  next
    case (Inherited name)
    then show ?thesis using QRegExp by (simp add: matched_def)
  qed
qed

lemma firstSearch_filter:
  assumes "statelessValue qv"
  shows "firstSearch key qv docs i \<sigma> =
     (map (\<lambda>j. i + j) (filter (\<lambda>j. matched qv (getField (docs ! j) key) \<sigma>) [0..<length docs]),
      \<sigma>)"
proof (induction docs arbitrary: i)
  case Nil
  then show ?case by simp
next
  case (Cons d docs)
  have upt: "[0..<length (d # docs)] = 0 # map Suc [0..<length docs]"
    by (simp add: upt_conv_Cons map_Suc_upt del: upt_Suc)
  have mv: "matchValues qv (getField d key) \<sigma> = (matched qv (getField d key) \<sigma>, \<sigma>)"
    using assms by (rule matchValues_stateless)
  show ?case
    unfolding upt by (simp add: mv Cons.IH filter_map comp_def)
qed

lemma functionLoop_range:
  "functionLoop f docs i \<sigma> = (ps, \<sigma>') \<Longrightarrow>
   sorted_wrt (<) ps \<and> (\<forall>p \<in> set ps. i \<le> p \<and> p < i + length docs)"
proof (induction docs arbitrary: i \<sigma> ps \<sigma>')
  case Nil
  then show ?case by auto
next
  case (Cons d docs)
  obtain r \<sigma>1 where r: "f \<sigma> (JObject d) = (r, \<sigma>1)" by (cases "f \<sigma> (JObject d)")
  obtain qs \<sigma>2 where q: "functionLoop f docs (Suc i) \<sigma>1 = (qs, \<sigma>2)"
    by (cases "functionLoop f docs (Suc i) \<sigma>1")
  have ih: "sorted_wrt (<) qs \<and> (\<forall>p \<in> set qs. Suc i \<le> p \<and> p < Suc i + length docs)"
    using Cons.IH [OF q] .
  have "ps = (if truthy r then i # qs else qs)" using Cons.prems r q by simp
  then show ?case using ih by auto
qed

lemma firstSearch_range:
  "firstSearch key qv docs i \<sigma> = (ps, \<sigma>') \<Longrightarrow>
   sorted_wrt (<) ps \<and> (\<forall>p \<in> set ps. i \<le> p \<and> p < i + length docs)"
proof (induction docs arbitrary: i \<sigma> ps \<sigma>')
  case Nil
  then show ?case by auto
next
  case (Cons d docs)
  obtain m \<sigma>1 where m: "matchValues qv (getField d key) \<sigma> = (m, \<sigma>1)"
    by (cases "matchValues qv (getField d key) \<sigma>")
  obtain qs \<sigma>2 where q: "firstSearch key qv docs (Suc i) \<sigma>1 = (qs, \<sigma>2)"
    by (cases "firstSearch key qv docs (Suc i) \<sigma>1")
  have ih: "sorted_wrt (<) qs \<and> (\<forall>p \<in> set qs. Suc i \<le> p \<and> p < Suc i + length docs)"
    using Cons.IH [OF q] .
  have "ps = (if m then i # qs else qs)" using Cons.prems m q by simp
  then show ?case using ih by auto
qed

lemma cleanArray_masked: "cleanArray (masked alive ps) = filter alive ps"
  by (induction ps) (simp_all add: masked_def)

lemma masked_True: "map Some ps = masked (\<lambda>p. True) ps"
  by (simp add: masked_def)

lemma cleanArray_Some: "cleanArray (map Some ps) = ps"
  by (induction ps) simp_all

lemma nextSearch_masked:
  assumes "statelessValue qv"
  shows "\<forall>p \<in> set ps. p < length docs \<Longrightarrow>
   nextSearch key qv docs (masked alive ps) \<sigma> =
     Inr (masked (\<lambda>p. alive p \<and> matched qv (getField (docs ! p) key) \<sigma>) ps,
          length (filter alive ps), \<sigma>)"
proof (induction ps)
  case Nil
  then show ?case by (simp add: masked_def)
next
  case (Cons p ps)
  have mv: "matchValues qv (getField (docs ! p) key) \<sigma> =
      (matched qv (getField (docs ! p) key) \<sigma>, \<sigma>)"
    using assms by (rule matchValues_stateless)
  have ih: "nextSearch key qv docs (map (\<lambda>p. if alive p then Some p else None) ps) \<sigma> =
     Inr (map (\<lambda>p. if alive p \<and> matched qv (getField (docs ! p) key) \<sigma> then Some p else None) ps,
          length (filter alive ps), \<sigma>)"
    using Cons by (simp add: masked_def)
  show ?case using Cons.prems by (simp add: masked_def getDocument_def mv ih)
qed

lemma nextFields_masked:
  "stateless fields \<Longrightarrow> \<forall>p \<in> set ps. p < length docs \<Longrightarrow>
   \<exists>m. nextFields fields docs (masked alive ps) n e \<sigma> =
     Inr (masked (\<lambda>p. alive p \<and> matchesFields fields (docs ! p) \<sigma>) ps, m,
          e + length fields, \<sigma>)"
proof (induction fields arbitrary: alive n e)
  case Nil
  then show ?case by (simp add: matchesFields_def)
next
  case (Cons f fields)
  obtain key qv where f: "f = (key, qv)" by (cases f)
  have sv: "statelessValue qv" and sf: "stateless fields"
    using Cons.prems(1) by (simp_all add: stateless_def f)
  show ?case
    using Cons.prems(2)
      Cons.IH [OF sf Cons.prems(2), of "\<lambda>p. alive p \<and> matched qv (getField (docs ! p) key) \<sigma>"
        "n + length (filter alive ps)" "Suc e"]
    by (simp add: f nextSearch_masked [OF sv] matchesFields_def conj_assoc)
qed

lemma searchDocumentsCounted_fields:
  assumes "stateless (f # fields)"
  shows "\<exists>n e. searchDocumentsCounted (QueryObject (f # fields)) docs \<sigma> =
     Inr (filter (\<lambda>i. matchesFields (f # fields) (docs ! i) \<sigma>) [0..<length docs], n, e, \<sigma>)"
proof -
  obtain key qv where f: "f = (key, qv)" by (cases f)
  have sv: "statelessValue qv" and sf: "stateless fields"
    using assms by (simp_all add: stateless_def f)
  let ?first = "filter (\<lambda>i. matched qv (getField (docs ! i) key) \<sigma>) [0..<length docs]"
  have first: "firstSearch key qv docs 0 \<sigma> = (?first, \<sigma>)"
    by (simp add: firstSearch_filter [OF sv])
  have range: "\<forall>p \<in> set ?first. p < length docs" by simp
  show ?thesis
  proof (cases "?first = []")
    case True
    then have "filter (\<lambda>i. matchesFields (f # fields) (docs ! i) \<sigma>) [0..<length docs] = []"
      by (auto simp: filter_empty_conv matchesFields_def f)
    then show ?thesis using True first by (simp add: f)
  next
    case False
    have "filter (\<lambda>p. matchesFields fields (docs ! p) \<sigma>) ?first =
          filter (\<lambda>i. matchesFields (f # fields) (docs ! i) \<sigma>) [0..<length docs]"
      by (simp add: matchesFields_def f)
    moreover obtain m where
      "nextFields fields docs (map Some ?first) (length docs) 1 \<sigma> =
         Inr (masked (\<lambda>p. True \<and> matchesFields fields (docs ! p) \<sigma>) ?first, m,
              1 + length fields, \<sigma>)"
      using nextFields_masked [OF sf range, of "\<lambda>p. True" "length docs" 1 \<sigma>]
      unfolding masked_True by blast
    ultimately show ?thesis
      using False first by (simp add: f cleanArray_masked del: nextFields.simps)
  qed
qed

lemma searchDocuments_fields:
  assumes "stateless fields"
  shows "searchDocuments (QueryObject fields) docs \<sigma> =
     Inr (filter (\<lambda>i. matchesFields fields (docs ! i) \<sigma>) [0..<length docs])"
proof (cases fields)
  case Nil
  then show ?thesis by (simp add: searchDocuments_def numbersList_upt matchesFields_def)
next
  case (Cons f fields')
  then show ?thesis
    using searchDocumentsCounted_fields [of f fields' docs \<sigma>] assms
    by (auto simp: searchDocuments_def)
qed





subsection \<open>Slots only become holes\<close>

lemma thins_refl: "thins found found"
  by (simp add: thins_def list_all2_refl)

lemma thins_trans: "thins a b \<Longrightarrow> thins b c \<Longrightarrow> thins a c"
  unfolding thins_def
  by (rule list_all2_trans
      [of "\<lambda>a b. b = None \<or> b = a" "\<lambda>a b. b = None \<or> b = a" _ a b c]) auto

lemma thins_Some: "thins found found' \<Longrightarrow> Some p \<in> set found' \<Longrightarrow> Some p \<in> set found"
  unfolding thins_def
  by (induction found found' rule: list_all2_induct) auto

lemma thins_clean_subset: "thins found found' \<Longrightarrow> set (cleanArray found') \<subseteq> set (cleanArray found)"
  unfolding thins_def
proof (induction found found' rule: list_all2_induct)
  case Nil
  then show ?case by simp
next
  case (Cons a found b found')
  then show ?case by (cases a; cases b) auto
qed

lemma thins_clean_sorted:
  "thins found found' \<Longrightarrow> sorted_wrt (<) (cleanArray found) \<Longrightarrow>
   sorted_wrt (<) (cleanArray found')"
proof (induction found arbitrary: found')
  case Nil
  then show ?case by (simp add: thins_def)
next
  case (Cons a found)
  obtain b rest where f': "found' = b # rest" and b: "b = None \<or> b = a"
    and t: "thins found rest"
    using Cons.prems(1) by (auto simp: thins_def list_all2_Cons1)
  have sub: "set (cleanArray rest) \<subseteq> set (cleanArray found)"
    using t by (rule thins_clean_subset)
  have srt: "sorted_wrt (<) (cleanArray found)"
    using Cons.prems(2) by (cases a) simp_all
  have ih: "sorted_wrt (<) (cleanArray rest)" using Cons.IH [OF t srt] .
  show ?case
  proof (cases b)
    case None
    then show ?thesis using ih f' by simp
  next
    case (Some p)
    then have "a = Some p" using b by simp
    then have "\<forall>q \<in> set (cleanArray found). p < q" using Cons.prems(2) by simp
    then show ?thesis using ih f' Some sub by auto
  qed
qed

lemma nextSearch_thins:
  "\<forall>p. Some p \<in> set found \<longrightarrow> p < length docs \<Longrightarrow>
   \<exists>found' n \<sigma>'. nextSearch key qv docs found \<sigma> = Inr (found', n, \<sigma>') \<and> thins found found'"
proof (induction found arbitrary: \<sigma>)
  case Nil
  then show ?case by (simp add: thins_def)
next
  case (Cons a found)
  have range: "\<forall>p. Some p \<in> set found \<longrightarrow> p < length docs" using Cons.prems by simp
  show ?case
  proof (cases a)
    case None
    obtain found' n \<sigma>' where
      "nextSearch key qv docs found \<sigma> = Inr (found', n, \<sigma>')" "thins found found'"
      using Cons.IH [OF range, of \<sigma>] by blast
    then show ?thesis using None by (simp add: thins_def)
  next
    case (Some p)
    then have p: "p < length docs" using Cons.prems by simp
    obtain m \<sigma>1 where m: "matchValues qv (getField (docs ! p) key) \<sigma> = (m, \<sigma>1)"
      by (cases "matchValues qv (getField (docs ! p) key) \<sigma>")
    obtain found' n \<sigma>' where
      "nextSearch key qv docs found \<sigma>1 = Inr (found', n, \<sigma>')" "thins found found'"
      using Cons.IH [OF range, of \<sigma>1] by blast
    then show ?thesis using Some p m by (simp add: thins_def getDocument_def)
  qed
qed

lemma nextFields_thins:
  "\<forall>p. Some p \<in> set found \<longrightarrow> p < length docs \<Longrightarrow>
   \<exists>found' m \<sigma>'. nextFields fields docs found n e \<sigma> = Inr (found', m, e + length fields, \<sigma>')
      \<and> thins found found'"
proof (induction fields arbitrary: found n e \<sigma>)
  case Nil
  then show ?case by (simp add: thins_refl)
next
  case (Cons f fields)
  obtain key qv where f: "f = (key, qv)" by (cases f)
  obtain found1 k \<sigma>1 where
    ns: "nextSearch key qv docs found \<sigma> = Inr (found1, k, \<sigma>1)" and t1: "thins found found1"
    using nextSearch_thins [OF Cons.prems, of key qv \<sigma>] by blast
  have range: "\<forall>p. Some p \<in> set found1 \<longrightarrow> p < length docs"
    using Cons.prems t1 thins_Some by blast
  obtain found' m \<sigma>' where
    nf: "nextFields fields docs found1 (n + k) (Suc e) \<sigma>1 =
           Inr (found', m, Suc e + length fields, \<sigma>')"
    and t2: "thins found1 found'"
    using Cons.IH [OF range, of "n + k" "Suc e" \<sigma>1] by blast
  have "thins found found'" using t1 t2 by (rule thins_trans)
  then show ?case using ns nf by (simp add: f)
qed

text \<open>
  What a field map returns, whatever its query values do to the state: an ascending
  list of positions of the array; and the loop enters every field unless the first
  search found nothing.
\<close>

lemma searchDocumentsCounted_shape:
  "\<exists>found n \<sigma>'. searchDocumentsCounted (QueryObject ((key, qv) # rest)) docs \<sigma> =
      Inr (found, n, (if fst (firstSearch key qv docs 0 \<sigma>) = [] then 1 else 1 + length rest), \<sigma>')
    \<and> sorted_wrt (<) found \<and> (\<forall>p \<in> set found. p < length docs)"
proof -
  obtain first \<sigma>1 where first: "firstSearch key qv docs 0 \<sigma> = (first, \<sigma>1)"
    by (cases "firstSearch key qv docs 0 \<sigma>")
  have fr: "sorted_wrt (<) first \<and> (\<forall>p \<in> set first. 0 \<le> p \<and> p < 0 + length docs)"
    using first by (rule firstSearch_range)
  show ?thesis
  proof (cases "first = []")
    case True
    then show ?thesis using first by simp
  next
    case False
    have range: "\<forall>p. Some p \<in> set (map Some first) \<longrightarrow> p < length docs"
      using fr by auto
    obtain found' m \<sigma>' where
      nf: "nextFields rest docs (map Some first) (length docs) 1 \<sigma>1 =
             Inr (found', m, 1 + length rest, \<sigma>')"
      and t: "thins (map Some first) found'"
      using nextFields_thins [OF range, of rest "length docs" 1 \<sigma>1] by blast
    have "sorted_wrt (<) (cleanArray found')"
      using t fr by (auto intro: thins_clean_sorted simp: cleanArray_Some)
    moreover have "\<forall>p \<in> set (cleanArray found'). p < length docs"
      using thins_clean_subset [OF t] fr by (auto simp: cleanArray_Some)
    ultimately show ?thesis using first False nf by simp
  qed
qed

lemma searchDocuments_shape:
  "\<exists>found. searchDocuments query docs \<sigma> = Inr found \<and> sorted_wrt (<) found \<and>
     (\<forall>p \<in> set found. p < length docs)"
proof (cases query)
  case QueryUndefined
  then show ?thesis by (simp add: searchDocuments_def numbersList_upt)
next
  case (QueryFunction f)
  obtain ps \<sigma>' where l: "functionLoop f docs 0 \<sigma> = (ps, \<sigma>')"
    by (cases "functionLoop f docs 0 \<sigma>")
  show ?thesis
    using functionLoop_range [OF l] QueryFunction l by (simp add: searchDocuments_def)
next
  case (QueryObject fields)
  show ?thesis
  proof (cases fields)
    case Nil
    then show ?thesis using QueryObject by (simp add: searchDocuments_def numbersList_upt)
  next
    case (Cons f rest)
    obtain key qv where f: "f = (key, qv)" by (cases f)
    obtain found n e \<sigma>' where
      "searchDocumentsCounted (QueryObject ((key, qv) # rest)) docs \<sigma> = Inr (found, n, e, \<sigma>')"
      "sorted_wrt (<) found" "\<forall>p \<in> set found. p < length docs"
      using searchDocumentsCounted_shape [of key qv rest docs \<sigma>] by blast
    then show ?thesis using QueryObject Cons f by (simp add: searchDocuments_def)
  qed
qed

lemma single_field_empty:
  "searchDocuments (QueryObject [(key, qv)]) docs \<sigma> = Inr [] \<longleftrightarrow>
   fst (firstSearch key qv docs 0 \<sigma>) = []"
  by (cases "firstSearch key qv docs 0 \<sigma>") (simp add: searchDocuments_def cleanArray_Some)

subsection \<open>Holes stay holes\<close>

lemma cleanArray_empty_holes: "cleanArray found = [] \<Longrightarrow> found = replicate (length found) None"
proof (induction found)
  case Nil
  then show ?case by simp
next
  case (Cons x found)
  then show ?case by (cases x) simp_all
qed

lemma nextSearch_holes:
  "nextSearch key qv docs (replicate n None) \<sigma> = Inr (replicate n None, 0, \<sigma>)"
  by (induction n) simp_all

lemma nextFields_holes:
  "nextFields fields docs (replicate n None) m e \<sigma> =
     Inr (replicate n None, m, e + length fields, \<sigma>)"
proof (induction fields arbitrary: m e)
  case Nil
  then show ?case by simp
next
  case (Cons f fields)
  then show ?case by (cases f) (simp add: nextSearch_holes)
qed

lemma nextFields_append:
  "nextFields (fields1 @ fields2) docs found n e \<sigma> =
     (case nextFields fields1 docs found n e \<sigma> of
        Inl x \<Rightarrow> Inl x
      | Inr (found', m, e', \<sigma>') \<Rightarrow> nextFields fields2 docs found' m e' \<sigma>')"
proof (induction fields1 arbitrary: found n e \<sigma>)
  case Nil
  then show ?case by simp
next
  case (Cons f fields1)
  then show ?case by (cases f) (simp split: sum.splits prod.splits)
qed

lemma search_emptied_stays:
  assumes "searchDocuments (QueryObject (f # rest)) docs \<sigma> = Inr []"
  shows "searchDocuments (QueryObject ((f # rest) @ later)) docs \<sigma> = Inr [] \<and>
         matchCount (QueryObject ((f # rest) @ later)) docs \<sigma> =
           matchCount (QueryObject (f # rest)) docs \<sigma>"
proof -
  obtain key qv where f: "f = (key, qv)" by (cases f)
  obtain first \<sigma>1 where first: "firstSearch key qv docs 0 \<sigma> = (first, \<sigma>1)"
    by (cases "firstSearch key qv docs 0 \<sigma>")
  show ?thesis
  proof (cases "first = []")
    case True
    then show ?thesis using first by (simp add: f searchDocuments_def matchCount_def)
  next
    case False
    have fr: "sorted_wrt (<) first \<and> (\<forall>p \<in> set first. 0 \<le> p \<and> p < 0 + length docs)"
      using first by (rule firstSearch_range)
    have range: "\<forall>p. Some p \<in> set (map Some first) \<longrightarrow> p < length docs"
      using fr by auto
    obtain found' m \<sigma>' where nf:
      "nextFields rest docs (map Some first) (length docs) 1 \<sigma>1 =
         Inr (found', m, 1 + length rest, \<sigma>')"
      using nextFields_thins [OF range, of rest "length docs" 1 \<sigma>1] by blast
    have "cleanArray found' = []"
      using assms False nf first by (simp add: searchDocuments_def f)
    then have holes: "found' = replicate (length found') None"
      by (rule cleanArray_empty_holes)
    have "nextFields later docs found' m (1 + length rest) \<sigma>' =
          Inr (found', m, 1 + length rest + length later, \<sigma>')"
      using nextFields_holes [of later docs "length found'" m "1 + length rest" \<sigma>'] holes
      by simp
    then show ?thesis
      using False nf first \<open>cleanArray found' = []\<close>
      by (simp add: f nextFields_append searchDocuments_def matchCount_def)
  qed
qed

subsection \<open>Documents that read alike\<close>







subsection \<open>The empty query\<close>

text \<open>
  C1. For every array of documents and every query that is undefined or has no
  fields, the search returns exactly the positions 0 to n - 1 of the array, in
  ascending order.
\<close>

theorem search_empty_query_all_positions:
  "searchDocuments QueryUndefined documents \<sigma> = Inr [0..<length documents] \<and>
   searchDocuments (QueryObject []) documents \<sigma> = Inr [0..<length documents]"
  by (simp add: searchDocuments_def numbersList_upt)

subsection \<open>A field map is the conjunction of its fields\<close>




subsection \<open>Early exit and the shape of the result\<close>

text \<open>
  The query \<^verbatim>\<open>{a: 1, b: 'y'}\<close> on three documents: two have a = 1 and none of them
  has b = 'y', so the second field leaves no candidate. The loop over the fields has
  no \<^verbatim>\<open>return\<close> there. With a third field after these two the search enters that
  field as well: it does not terminate when the candidates run out.
\<close>

theorem search_later_field_counterexample:
  "searchDocuments
     (QueryObject [(''a'', QValue (JNumber (Finite 1))), (''b'', QValue (JString ''y''))])
     [[(''a'', JNumber (Finite 1)), (''b'', JString ''x'')],
      [(''a'', JNumber (Finite 1))],
      [(''a'', JNumber (Finite 2)), (''b'', JString ''x'')]] () = Inr [] \<and>
   fieldsEntered
     (QueryObject [(''a'', QValue (JNumber (Finite 1))), (''b'', QValue (JString ''y''))])
     [[(''a'', JNumber (Finite 1)), (''b'', JString ''x'')],
      [(''a'', JNumber (Finite 1))],
      [(''a'', JNumber (Finite 2)), (''b'', JString ''x'')]] () = 2 \<and>
   fieldsEntered
     (QueryObject [(''a'', QValue (JNumber (Finite 1))), (''b'', QValue (JString ''y'')),
        (''c'', QValue JNull)])
     [[(''a'', JNumber (Finite 1)), (''b'', JString ''x'')],
      [(''a'', JNumber (Finite 1))],
      [(''a'', JNumber (Finite 2)), (''b'', JString ''x'')]] () = 3"
  by (simp add: searchDocuments_def fieldsEntered_def getField_def getDocument_def)

text \<open>
  C7, with the early return after the first field only. For every field-map query
  and document collection: when the first field matches no document, the search
  returns the empty list at once, having entered that field only and evaluated one
  match per document. When the first field matches
  some document, the search enters every field of the query, whether or not a later
  field leaves no candidate; once the fields so far have left no candidate, the result
  is the empty list whatever fields follow, and the fields that follow evaluate no
  match, since every slot of \<^verbatim>\<open>found\<close> is a hole. In all cases the result of a search
  is an ascending list of positions of the collection, so it has no duplicate, no hole
  and no position out of range; and for stateless query values it holds exactly the
  positions whose document matches every field.
\<close>

theorem search_early_exit_and_compact:
  "(searchDocuments (QueryObject [first]) documents \<sigma> = Inr [] \<longrightarrow>
      searchDocuments (QueryObject (first # rest)) documents \<sigma> = Inr [] \<and>
      fieldsEntered (QueryObject (first # rest)) documents \<sigma> = 1 \<and>
      matchCount (QueryObject (first # rest)) documents \<sigma> = length documents) \<and>
   (searchDocuments (QueryObject [first]) documents \<sigma> \<noteq> Inr [] \<longrightarrow>
      fieldsEntered (QueryObject (first # rest)) documents \<sigma> = 1 + length rest) \<and>
   (searchDocuments (QueryObject (first # rest)) documents \<sigma> = Inr [] \<longrightarrow>
      searchDocuments (QueryObject ((first # rest) @ later)) documents \<sigma> = Inr [] \<and>
      matchCount (QueryObject ((first # rest) @ later)) documents \<sigma> =
        matchCount (QueryObject (first # rest)) documents \<sigma>) \<and>
   (\<exists>found. searchDocuments query documents \<sigma> = Inr found \<and>
      sorted_wrt (<) found \<and> distinct found \<and> (\<forall>p \<in> set found. p < length documents)) \<and>
   (stateless fields \<longrightarrow>
      searchDocuments (QueryObject fields) documents \<sigma> =
        Inr (filter (\<lambda>i. matchesFields fields (documents ! i) \<sigma>) [0..<length documents]))"
proof -
  obtain key qv where f: "first = (key, qv)" by (cases first)
  obtain ps \<sigma>1 where first: "firstSearch key qv documents 0 \<sigma> = (ps, \<sigma>1)"
    by (cases "firstSearch key qv documents 0 \<sigma>")
  have empty: "searchDocuments (QueryObject [first]) documents \<sigma> = Inr [] \<longleftrightarrow> ps = []"
    using first by (simp add: f single_field_empty)
  obtain found n \<sigma>' where counted:
    "searchDocumentsCounted (QueryObject (first # rest)) documents \<sigma> =
       Inr (found, n, (if ps = [] then 1 else 1 + length rest), \<sigma>')"
    using searchDocumentsCounted_shape [of key qv rest documents \<sigma>] first
    by (auto simp: f)
  have c1: "searchDocuments (QueryObject (first # rest)) documents \<sigma> = Inr [] \<and>
      fieldsEntered (QueryObject (first # rest)) documents \<sigma> = 1 \<and>
      matchCount (QueryObject (first # rest)) documents \<sigma> = length documents"
    if "searchDocuments (QueryObject [first]) documents \<sigma> = Inr []"
  proof -
    have "ps = []" using that empty by simp
    then show ?thesis
      using first by (simp add: f searchDocuments_def fieldsEntered_def matchCount_def)
  qed
  have c2: "fieldsEntered (QueryObject (first # rest)) documents \<sigma> = 1 + length rest"
    if "searchDocuments (QueryObject [first]) documents \<sigma> \<noteq> Inr []"
  proof -
    have "ps \<noteq> []" using that empty by simp
    then show ?thesis using counted by (simp add: fieldsEntered_def)
  qed
  have c3: "searchDocuments (QueryObject ((first # rest) @ later)) documents \<sigma> = Inr [] \<and>
      matchCount (QueryObject ((first # rest) @ later)) documents \<sigma> =
        matchCount (QueryObject (first # rest)) documents \<sigma>"
    if "searchDocuments (QueryObject (first # rest)) documents \<sigma> = Inr []"
    using that by (rule search_emptied_stays)
  obtain result where shape:
    "searchDocuments query documents \<sigma> = Inr result" "sorted_wrt (<) result"
    "\<forall>p \<in> set result. p < length documents"
    using searchDocuments_shape [of query documents \<sigma>] by blast
  have "distinct result" using shape(2) by (simp add: strict_sorted_iff)
  then have c4: "\<exists>found. searchDocuments query documents \<sigma> = Inr found \<and>
      sorted_wrt (<) found \<and> distinct found \<and> (\<forall>p \<in> set found. p < length documents)"
    using shape by blast
  have c5: "searchDocuments (QueryObject fields) documents \<sigma> =
        Inr (filter (\<lambda>i. matchesFields fields (documents ! i) \<sigma>) [0..<length documents])"
    if "stateless fields"
    using that by (rule searchDocuments_fields)
  show ?thesis using c1 c2 c3 c4 c5 by blast
qed

text \<open>
  The theorem at three documents. The query \<^verbatim>\<open>{a: 5, b: 'x'}\<close> stops after its first
  field, with three matches evaluated. The query \<^verbatim>\<open>{a: 1, b: 'y', c: null}\<close> enters
  its three fields; its second field leaves no candidate, and five matches are evaluated
  with or without the third.
\<close>

theorem search_early_exit_and_compact_witness:
  "searchDocuments (QueryObject [(''a'', QValue (JNumber (Finite 5)))])
     [[(''a'', JNumber (Finite 1)), (''b'', JString ''x'')],
      [(''a'', JNumber (Finite 1))],
      [(''a'', JNumber (Finite 2)), (''b'', JString ''x'')]] () = Inr [] \<and>
   searchDocuments
     (QueryObject [(''a'', QValue (JNumber (Finite 5))), (''b'', QValue (JString ''x''))])
     [[(''a'', JNumber (Finite 1)), (''b'', JString ''x'')],
      [(''a'', JNumber (Finite 1))],
      [(''a'', JNumber (Finite 2)), (''b'', JString ''x'')]] () = Inr [] \<and>
   fieldsEntered
     (QueryObject [(''a'', QValue (JNumber (Finite 5))), (''b'', QValue (JString ''x''))])
     [[(''a'', JNumber (Finite 1)), (''b'', JString ''x'')],
      [(''a'', JNumber (Finite 1))],
      [(''a'', JNumber (Finite 2)), (''b'', JString ''x'')]] () = 1 \<and>
   matchCount
     (QueryObject [(''a'', QValue (JNumber (Finite 5))), (''b'', QValue (JString ''x''))])
     [[(''a'', JNumber (Finite 1)), (''b'', JString ''x'')],
      [(''a'', JNumber (Finite 1))],
      [(''a'', JNumber (Finite 2)), (''b'', JString ''x'')]] () = 3 \<and>
   searchDocuments (QueryObject [(''a'', QValue (JNumber (Finite 1)))])
     [[(''a'', JNumber (Finite 1)), (''b'', JString ''x'')],
      [(''a'', JNumber (Finite 1))],
      [(''a'', JNumber (Finite 2)), (''b'', JString ''x'')]] () \<noteq> Inr [] \<and>
   fieldsEntered
     (QueryObject [(''a'', QValue (JNumber (Finite 1))), (''b'', QValue (JString ''y'')),
        (''c'', QValue JNull)])
     [[(''a'', JNumber (Finite 1)), (''b'', JString ''x'')],
      [(''a'', JNumber (Finite 1))],
      [(''a'', JNumber (Finite 2)), (''b'', JString ''x'')]] () = 3 \<and>
   searchDocuments
     (QueryObject [(''a'', QValue (JNumber (Finite 1))), (''b'', QValue (JString ''y''))])
     [[(''a'', JNumber (Finite 1)), (''b'', JString ''x'')],
      [(''a'', JNumber (Finite 1))],
      [(''a'', JNumber (Finite 2)), (''b'', JString ''x'')]] () = Inr [] \<and>
   searchDocuments
     (QueryObject [(''a'', QValue (JNumber (Finite 1))), (''b'', QValue (JString ''y'')),
        (''c'', QValue JNull)])
     [[(''a'', JNumber (Finite 1)), (''b'', JString ''x'')],
      [(''a'', JNumber (Finite 1))],
      [(''a'', JNumber (Finite 2)), (''b'', JString ''x'')]] () = Inr [] \<and>
   matchCount
     (QueryObject [(''a'', QValue (JNumber (Finite 1))), (''b'', QValue (JString ''y'')),
        (''c'', QValue JNull)])
     [[(''a'', JNumber (Finite 1)), (''b'', JString ''x'')],
      [(''a'', JNumber (Finite 1))],
      [(''a'', JNumber (Finite 2)), (''b'', JString ''x'')]] () =
   matchCount
     (QueryObject [(''a'', QValue (JNumber (Finite 1))), (''b'', QValue (JString ''y''))])
     [[(''a'', JNumber (Finite 1)), (''b'', JString ''x'')],
      [(''a'', JNumber (Finite 1))],
      [(''a'', JNumber (Finite 2)), (''b'', JString ''x'')]] () \<and>
   matchCount
     (QueryObject [(''a'', QValue (JNumber (Finite 1))), (''b'', QValue (JString ''y''))])
     [[(''a'', JNumber (Finite 1)), (''b'', JString ''x'')],
      [(''a'', JNumber (Finite 1))],
      [(''a'', JNumber (Finite 2)), (''b'', JString ''x'')]] () = 5 \<and>
   stateless ([(''a'', QValue (JNumber (Finite 1))), (''b'', QValue (JString ''y''))]
     :: (string \<times> unit queryValue) list) \<and>
   searchDocuments
     (QueryObject [(''a'', QValue (JNumber (Finite 1))), (''b'', QValue (JString ''y''))])
     [[(''a'', JNumber (Finite 1)), (''b'', JString ''x'')],
      [(''a'', JNumber (Finite 1))],
      [(''a'', JNumber (Finite 2)), (''b'', JString ''x'')]] () =
     Inr (filter
       (\<lambda>i. matchesFields
          [(''a'', QValue (JNumber (Finite 1))), (''b'', QValue (JString ''y''))]
          ([[(''a'', JNumber (Finite 1)), (''b'', JString ''x'')],
            [(''a'', JNumber (Finite 1))],
            [(''a'', JNumber (Finite 2)), (''b'', JString ''x'')]] ! i) ())
       [0..<length [[(''a'', JNumber (Finite 1)), (''b'', JString ''x'')],
                    [(''a'', JNumber (Finite 1))],
                    [(''a'', JNumber (Finite 2)), (''b'', JString ''x'')]]])"
proof -
  let ?docs = "[[(''a'', JNumber (Finite 1)), (''b'', JString ''x'')],
      [(''a'', JNumber (Finite 1))],
      [(''a'', JNumber (Finite 2)), (''b'', JString ''x'')]]"
  let ?a5 = "(''a'', QValue (JNumber (Finite 5))) :: string \<times> unit queryValue"
  let ?a1 = "(''a'', QValue (JNumber (Finite 1))) :: string \<times> unit queryValue"
  let ?bx = "(''b'', QValue (JString ''x'')) :: string \<times> unit queryValue"
  let ?by = "(''b'', QValue (JString ''y'')) :: string \<times> unit queryValue"
  let ?c = "(''c'', QValue JNull) :: string \<times> unit queryValue"
  have h1: "searchDocuments (QueryObject [?a5]) ?docs () = Inr []"
    by (simp add: searchDocuments_def getField_def getDocument_def)
  have h2: "searchDocuments (QueryObject [?a1]) ?docs () \<noteq> Inr []"
    by (simp add: searchDocuments_def getField_def getDocument_def)
  have h3: "searchDocuments (QueryObject (?a1 # [?by])) ?docs () = Inr []"
    by (simp add: searchDocuments_def getField_def getDocument_def)
  have h5: "stateless [?a1, ?by]" by (simp add: stateless_def)
  have n: "matchCount (QueryObject [?a1, ?by]) ?docs () = 5"
    by (simp add: matchCount_def getField_def getDocument_def)
  have n3: "matchCount (QueryObject [?a5, ?bx]) ?docs () = 3"
    by (simp add: matchCount_def getField_def getDocument_def)
  note t1 = search_early_exit_and_compact
    [where first = "?a5" and rest = "[?bx]" and documents = ?docs and \<sigma> = "()",
      THEN conjunct1, THEN mp, OF h1]
  note t2 = search_early_exit_and_compact
    [where first = "?a1" and rest = "[?by, ?c]" and documents = ?docs and \<sigma> = "()",
      THEN conjunct2, THEN conjunct1, THEN mp, OF h2]
  note t3 = search_early_exit_and_compact
    [where first = "?a1" and rest = "[?by]" and later = "[?c]" and documents = ?docs
      and \<sigma> = "()",
      THEN conjunct2, THEN conjunct2, THEN conjunct1, THEN mp, OF h3]
  note t5 = search_early_exit_and_compact
    [where fields = "[?a1, ?by]" and documents = ?docs and \<sigma> = "()",
      THEN conjunct2, THEN conjunct2, THEN conjunct2, THEN conjunct2, THEN mp, OF h5]
  have e1: "searchDocuments (QueryObject [?a5, ?bx]) ?docs () = Inr [] \<and>
      fieldsEntered (QueryObject [?a5, ?bx]) ?docs () = 1"
    using t1 by simp
  have e2: "fieldsEntered (QueryObject [?a1, ?by, ?c]) ?docs () = 3"
    using t2 by simp
  have e3: "searchDocuments (QueryObject [?a1, ?by, ?c]) ?docs () = Inr [] \<and>
      matchCount (QueryObject [?a1, ?by, ?c]) ?docs () =
        matchCount (QueryObject [?a1, ?by]) ?docs ()"
    using t3 by simp
  have h3': "searchDocuments (QueryObject [?a1, ?by]) ?docs () = Inr []"
    using h3 by simp
  show ?thesis
    apply (intro conjI)
               apply (rule h1)
              apply (rule e1 [THEN conjunct1])
             apply (rule e1 [THEN conjunct2])
            apply (rule n3)
           apply (rule h2)
          apply (rule e2)
         apply (rule h3')
        apply (rule e3 [THEN conjunct1])
       apply (rule e3 [THEN conjunct2])
      apply (rule n)
     apply (rule h5)
    apply (rule t5)
    done
qed

subsection \<open>The absent marker\<close>




section \<open>Normalisation and copies\<close>

text \<open>
  Modelled from the spec: \<^verbatim>\<open>prepareObject\<close> of \<^verbatim>\<open>utils.ts\<close> (not among the
  sources). Spec 4.3: recursively strip any field, at any depth, whose value is the
  absent marker. The spec says nothing of an absent array element, which is kept.
\<close>

fun prepareValue :: "jsvalue \<Rightarrow> jsvalue"
  and prepareObject :: "(string \<times> jsvalue) list \<Rightarrow> (string \<times> jsvalue) list"
  and prepareArray :: "jsvalue list \<Rightarrow> jsvalue list"
where
  "prepareValue (JObject fs) = JObject (prepareObject fs)"
| "prepareValue (JArray xs) = JArray (prepareArray xs)"
| "prepareValue JUndefined = JUndefined"
| "prepareValue JNull = JNull"
| "prepareValue (JBoolean b) = JBoolean b"
| "prepareValue (JNumber n) = JNumber n"
| "prepareValue (JString s) = JString s"
| "prepareObject [] = []"
| "prepareObject ((key, v) # fs) =
     (if v = JUndefined then prepareObject fs else (key, prepareValue v) # prepareObject fs)"
| "prepareArray [] = []"
| "prepareArray (x # xs) = prepareValue x # prepareArray xs"

text \<open>No field, at any depth, holds the absent marker.\<close>

fun noAbsentValue :: "jsvalue \<Rightarrow> bool"
  and noAbsentFields :: "(string \<times> jsvalue) list \<Rightarrow> bool"
  and noAbsentItems :: "jsvalue list \<Rightarrow> bool"
where
  "noAbsentValue (JObject fs) = noAbsentFields fs"
| "noAbsentValue (JArray xs) = noAbsentItems xs"
| "noAbsentValue JUndefined = True"
| "noAbsentValue JNull = True"
| "noAbsentValue (JBoolean b) = True"
| "noAbsentValue (JNumber n) = True"
| "noAbsentValue (JString s) = True"
| "noAbsentFields [] = True"
| "noAbsentFields ((key, v) # fs) = (v \<noteq> JUndefined \<and> noAbsentValue v \<and> noAbsentFields fs)"
| "noAbsentItems [] = True"
| "noAbsentItems (x # xs) = (noAbsentValue x \<and> noAbsentItems xs)"

text \<open>
  Modelled from the spec: \<^verbatim>\<open>deepClone\<close> of \<^verbatim>\<open>utils.ts\<close> (not among the
  sources): a deep copy. Where values are compared by content, a copy is its original;
  what the copy is for, the separation of the caller's objects from the engine's, is the
  subject of the store model below.
\<close>

definition deepClone :: "'a \<Rightarrow> 'a" where
  "deepClone target = target"

lemma prepareValue_not_undefined: "v \<noteq> JUndefined \<Longrightarrow> prepareValue v \<noteq> JUndefined"
  by (cases v) simp_all

lemma prepare_noAbsent:
  "noAbsentValue (prepareValue v)" "noAbsentFields (prepareObject fs)"
  "noAbsentItems (prepareArray xs)"
  by (induction v and fs and xs rule: prepareValue_prepareObject_prepareArray.induct)
    (simp_all add: prepareValue_not_undefined)


section \<open>The storage file\<close>

text \<open>
  \<^verbatim>\<open>String.prototype.trim\<close> removes white space and line terminators at both ends.
  A \<^typ>\<open>char\<close> is eight bits wide, so of the code points that \<^verbatim>\<open>trim\<close> removes the
  model has those below 256: tab, line feed, vertical tab, form feed, carriage return,
  space and the no-break space.
\<close>

definition isWhiteSpace :: "char \<Rightarrow> bool" where
  "isWhiteSpace c = (of_char c \<in> {9, 10, 11, 12, 13, 32, 160 :: nat})"

definition trim :: "string \<Rightarrow> string" where
  "trim content = rev (dropWhile isWhiteSpace (rev (dropWhile isWhiteSpace content)))"

text \<open>
  The loop of \<^verbatim>\<open>parseDatabaseStorage\<close>: an element that is not an object raises; an
  object is normalised and, when nothing is left of it, deleted from the array.
\<close>

fun parseElements :: "jsvalue list \<Rightarrow> error + document option list" where
  "parseElements [] = Inr []"
| "parseElements (JObject fs # documents) =
     (let prepared = prepareObject fs in
      case parseElements documents of
        Inl e \<Rightarrow> Inl e
      | Inr rest \<Rightarrow> Inr ((if isObjectEmpty prepared then None else Some prepared) # rest))"
| "parseElements (v # documents) =
     Inl (TypeError ''Database storage should contain only objects'')"

text \<open>
  \<^verbatim>\<open>parseDatabaseStorage\<close>. \<^verbatim>\<open>JSON.parse\<close> belongs to the language, not to the
  repository: it is a parameter, \<^term>\<open>None\<close> where it raises a SyntaxError.
\<close>

definition parseDatabaseStorage ::
  "(string \<Rightarrow> jsvalue option) \<Rightarrow> string \<Rightarrow> error + document list" where
  "parseDatabaseStorage jsonParse content =
     (let trimmed = trim content in
      if trimmed = [] then Inr []
      else (case jsonParse trimmed of
              None \<Rightarrow> Inl SyntaxError
            | Some documents \<Rightarrow>
                (case documents of
                   JArray elements \<Rightarrow>
                     (case parseElements elements of
                        Inl e \<Rightarrow> Inl e
                      | Inr parsed \<Rightarrow> Inr (cleanArray parsed))
                 | _ \<Rightarrow> Inl (TypeError ''Database storage should be an array of objects''))))"

section \<open>The database\<close>

text \<open>
  The configuration and the state of a \<^verbatim>\<open>Database\<close>. A validator raises or returns;
  it is a function to an optional error. What \<^verbatim>\<open>save\<close> hands to the writer is kept
  as a log, the newest request last; \<^verbatim>\<open>JSON.stringify\<close> of the documents is
  represented by the documents and the \<^verbatim>\<open>pretty\<close> flag.
\<close>

record config =
  path :: "string option"
  pretty :: bool
  autoload :: bool
  autosave :: bool
  optimize :: bool
  immutable :: bool
  validator :: "(document \<Rightarrow> error option) option"

datatype encoded = Encoded bool "document list"

datatype request = Add encoded | Write encoded

record database =
  documents :: "document list"
  config :: config
  requests :: "request list"

text \<open>\<^verbatim>\<open>if (this.config.path)\<close>: the path is defined and not the empty string.\<close>

definition hasPath :: "config \<Rightarrow> bool" where
  "hasPath c = (case path c of None \<Rightarrow> False | Some p \<Rightarrow> p \<noteq> [])"

definition save :: "database \<Rightarrow> database" where
  "save db =
     (if \<not> hasPath (config db) then db
      else (let encoded = Encoded (pretty (config db)) (documents db) in
            if optimize (config db) then db\<lparr>requests := requests db @ [Add encoded]\<rparr>
            else db\<lparr>requests := requests db @ [Write encoded]\<rparr>))"

definition validate :: "config \<Rightarrow> document \<Rightarrow> error option" where
  "validate c document = (case validator c of None \<Rightarrow> None | Some v \<Rightarrow> v document)"

text \<open>\<^verbatim>\<open>insertOne\<close>: the result and the database after the call.\<close>

definition insertOne :: "database \<Rightarrow> jsvalue \<Rightarrow> (error + document) \<times> database" where
  "insertOne db document =
     (case document of
        JObject fs \<Rightarrow>
          (let prepared = prepareObject fs in
           if isObjectEmpty prepared then (Inr [], db)
           else (case validate (config db) prepared of
                   Some e \<Rightarrow> (Inl e, db)
                 | None \<Rightarrow>
                     (let internal = deepClone prepared;
                          db1 = db\<lparr>documents := documents db @ [internal]\<rparr>;
                          db2 = (if autosave (config db) then save db1 else db1)
                      in (Inr (if immutable (config db) then deepClone internal else internal),
                          db2))))
      | _ \<Rightarrow> (Inl (TypeError ''Document must be an object''), db))"

text \<open>The loop of \<^verbatim>\<open>insertMany\<close>, with the documents inserted so far.\<close>

fun insertLoop :: "config \<Rightarrow> jsvalue list \<Rightarrow> document list \<Rightarrow> error + document list" where
  "insertLoop c [] inserted = Inr inserted"
| "insertLoop c (JObject fs # elements) inserted =
     (let prepared = prepareObject fs in
      if isObjectEmpty prepared then insertLoop c elements inserted
      else (case validate c prepared of
              Some e \<Rightarrow> Inl e
            | None \<Rightarrow> insertLoop c elements (inserted @ [deepClone prepared])))"
| "insertLoop c (v # elements) inserted = Inl (TypeError ''Documents must be an objects'')"

definition insertMany :: "database \<Rightarrow> jsvalue \<Rightarrow> (error + document list) \<times> database" where
  "insertMany db input =
     (case input of
        JArray elements \<Rightarrow>
          (case insertLoop (config db) elements [] of
             Inl e \<Rightarrow> (Inl e, db)
           | Inr inserted \<Rightarrow>
               (let db1 = db\<lparr>documents := documents db @ inserted\<rparr>;
                    db2 = (if autosave (config db) then save db1 else db1)
                in (Inr (if immutable (config db) then deepClone inserted else inserted), db2)))
      | _ \<Rightarrow> (Inl (TypeError ''Input must be an array''), db))"

text \<open>The validation loop of \<^verbatim>\<open>load\<close>: the first error is raised.\<close>

fun validateAll :: "config \<Rightarrow> document list \<Rightarrow> error option" where
  "validateAll c [] = None"
| "validateAll c (d # ds) = (case validate c d of Some e \<Rightarrow> Some e | None \<Rightarrow> validateAll c ds)"

text \<open>
  \<^verbatim>\<open>load\<close> (and \<^verbatim>\<open>loadSync\<close>, which has the same body). \<^verbatim>\<open>Reader.read\<close> is not
  among the sources: it is a parameter that gives the content of the file or raises.
\<close>

definition load ::
  "(string \<Rightarrow> jsvalue option) \<Rightarrow> (string \<Rightarrow> error + string) \<Rightarrow> database
     \<Rightarrow> error option \<times> database" where
  "load jsonParse reader db =
     (if \<not> hasPath (config db) then (None, db)
      else (case reader (the (path (config db))) of
              Inl e \<Rightarrow> (Some e, db)
            | Inr content \<Rightarrow>
                (case parseDatabaseStorage jsonParse content of
                   Inl e \<Rightarrow> (Some e, db)
                 | Inr parsed \<Rightarrow>
                     (case validateAll (config db) parsed of
                        Some e \<Rightarrow> (Some e, db)
                      | None \<Rightarrow> (None, db\<lparr>documents := parsed\<rparr>)))))"


subsection \<open>Documents that normalise to nothing\<close>

lemma insertLoop_skip:
  "prepareObject fs = [] \<Longrightarrow>
   insertLoop c (xs @ JObject fs # ys) inserted = insertLoop c (xs @ ys) inserted"
proof (induction c xs inserted rule: insertLoop.induct)
  case (1 c inserted)
  then show ?case by (simp add: isObjectEmpty_def)
next
  case (2 c fs' elements inserted)
  then show ?case by (simp add: Let_def split: option.splits)
qed simp_all

lemma insertLoop_objects:
  "list_all isObject elements \<Longrightarrow> validator c = None \<Longrightarrow>
   insertLoop c elements inserted =
     Inr (inserted @ filter (\<lambda>d. d \<noteq> [])
            (map (\<lambda>v. case v of JObject fs \<Rightarrow> prepareObject fs | _ \<Rightarrow> []) elements))"
proof (induction c elements inserted rule: insertLoop.induct)
  case (2 c fs elements inserted)
  then show ?case
    by (simp add: Let_def isObjectEmpty_def validate_def deepClone_def)
qed simp_all


text \<open>
  C10. For every document that normalises to no fields: \<^verbatim>\<open>insertOne\<close> returns the
  empty object and leaves the database as it was, so nothing is added and nothing is
  saved; \<^verbatim>\<open>insertMany\<close> behaves as if the document were not in its input. With no
  validator, \<^verbatim>\<open>insertMany\<close> of objects returns the normalised documents that have a
  field, and raises nothing.
\<close>

theorem insert_empty_document:
  "(prepareObject fs = [] \<longrightarrow>
      insertOne db (JObject fs) = (Inr [], db) \<and>
      insertMany db (JArray (before @ JObject fs # after)) =
        insertMany db (JArray (before @ after))) \<and>
   (list_all isObject elements \<and> validator (config db) = None \<longrightarrow>
      fst (insertMany db (JArray elements)) =
        Inr (filter (\<lambda>d. d \<noteq> [])
               (map (\<lambda>v. case v of JObject fs \<Rightarrow> prepareObject fs | _ \<Rightarrow> []) elements)))"
proof (intro conjI impI)
  assume e: "prepareObject fs = []"
  show "insertOne db (JObject fs) = (Inr [], db)"
    using e by (simp add: insertOne_def isObjectEmpty_def)
  show "insertMany db (JArray (before @ JObject fs # after)) =
        insertMany db (JArray (before @ after))"
    using e by (simp add: insertMany_def insertLoop_skip)
next
  assume "list_all isObject elements \<and> validator (config db) = None"
  then show "fst (insertMany db (JArray elements)) =
        Inr (filter (\<lambda>d. d \<noteq> [])
               (map (\<lambda>v. case v of JObject fs \<Rightarrow> prepareObject fs | _ \<Rightarrow> []) elements))"
    by (simp add: insertMany_def insertLoop_objects deepClone_def Let_def)
qed


text \<open>
  The theorem at a database with autosave on and the document \<^verbatim>\<open>{a: undefined}\<close>.
\<close>

theorem insert_empty_document_witness:
  "prepareObject [(''a'', JUndefined)] = [] \<and>
   insertOne
     \<lparr>documents = [[(''k'', JNull)]],
      config = \<lparr>path = Some ''db.json'', pretty = True, autoload = True, autosave = True,
                optimize = True, immutable = True, validator = None\<rparr>,
      requests = []\<rparr>
     (JObject [(''a'', JUndefined)]) =
   (Inr [],
     \<lparr>documents = [[(''k'', JNull)]],
      config = \<lparr>path = Some ''db.json'', pretty = True, autoload = True, autosave = True,
                optimize = True, immutable = True, validator = None\<rparr>,
      requests = []\<rparr>) \<and>
   insertMany
     \<lparr>documents = [[(''k'', JNull)]],
      config = \<lparr>path = Some ''db.json'', pretty = True, autoload = True, autosave = True,
                optimize = True, immutable = True, validator = None\<rparr>,
      requests = []\<rparr>
     (JArray ([JObject [(''b'', JNull)]] @ JObject [(''a'', JUndefined)] # [JObject [(''c'', JNull)]])) =
   insertMany
     \<lparr>documents = [[(''k'', JNull)]],
      config = \<lparr>path = Some ''db.json'', pretty = True, autoload = True, autosave = True,
                optimize = True, immutable = True, validator = None\<rparr>,
      requests = []\<rparr>
     (JArray ([JObject [(''b'', JNull)]] @ [JObject [(''c'', JNull)]])) \<and>
   fst (insertMany
     \<lparr>documents = [[(''k'', JNull)]],
      config = \<lparr>path = Some ''db.json'', pretty = True, autoload = True, autosave = True,
                optimize = True, immutable = True, validator = None\<rparr>,
      requests = []\<rparr>
     (JArray ([JObject [(''b'', JNull)]] @ JObject [(''a'', JUndefined)] # [JObject [(''c'', JNull)]]))) =
   Inr [[(''b'', JNull)], [(''c'', JNull)]]"
proof -
  have e: "prepareObject [(''a'', JUndefined)] = []" by simp
  have one: "insertOne
     \<lparr>documents = [[(''k'', JNull)]],
      config = \<lparr>path = Some ''db.json'', pretty = True, autoload = True, autosave = True,
                optimize = True, immutable = True, validator = None\<rparr>,
      requests = []\<rparr>
     (JObject [(''a'', JUndefined)]) =
   (Inr [],
     \<lparr>documents = [[(''k'', JNull)]],
      config = \<lparr>path = Some ''db.json'', pretty = True, autoload = True, autosave = True,
                optimize = True, immutable = True, validator = None\<rparr>,
      requests = []\<rparr>) \<and>
   insertMany
     \<lparr>documents = [[(''k'', JNull)]],
      config = \<lparr>path = Some ''db.json'', pretty = True, autoload = True, autosave = True,
                optimize = True, immutable = True, validator = None\<rparr>,
      requests = []\<rparr>
     (JArray ([JObject [(''b'', JNull)]] @ JObject [(''a'', JUndefined)] # [JObject [(''c'', JNull)]])) =
   insertMany
     \<lparr>documents = [[(''k'', JNull)]],
      config = \<lparr>path = Some ''db.json'', pretty = True, autoload = True, autosave = True,
                optimize = True, immutable = True, validator = None\<rparr>,
      requests = []\<rparr>
     (JArray ([JObject [(''b'', JNull)]] @ [JObject [(''c'', JNull)]]))"
    using e insert_empty_document
      [of "[(''a'', JUndefined)]"
        "\<lparr>documents = [[(''k'', JNull)]],
      config = \<lparr>path = Some ''db.json'', pretty = True, autoload = True, autosave = True,
                optimize = True, immutable = True, validator = None\<rparr>,
      requests = []\<rparr>" "[JObject [(''b'', JNull)]]" "[JObject [(''c'', JNull)]]"]
    by blast
  have many: "fst (insertMany
     \<lparr>documents = [[(''k'', JNull)]],
      config = \<lparr>path = Some ''db.json'', pretty = True, autoload = True, autosave = True,
                optimize = True, immutable = True, validator = None\<rparr>,
      requests = []\<rparr>
     (JArray ([JObject [(''b'', JNull)]] @ JObject [(''a'', JUndefined)] # [JObject [(''c'', JNull)]]))) =
   Inr [[(''b'', JNull)], [(''c'', JNull)]]"
    by (simp add: insertMany_def isObjectEmpty_def validate_def deepClone_def save_def hasPath_def)
  show ?thesis using e one many by blast
qed


subsection \<open>Parse errors\<close>

lemma parseElements_error:
  "(\<exists>e. parseElements elements = Inl e) \<longleftrightarrow> \<not> list_all isObject elements"
proof (induction elements rule: parseElements.induct)
  case (2 fs rest)
  then show ?case by (auto simp: Let_def split: sum.splits)
qed simp_all

lemma trim_whitespace:
  assumes "list_all isWhiteSpace content"
  shows "trim content = []"
proof -
  have left: "dropWhile isWhiteSpace content = []"
    using assms by (induction content) simp_all
  show ?thesis by (simp only: trim_def left rev.simps dropWhile.simps)
qed


text \<open>
  C8. For every content of the storage file: parsing raises exactly when the trimmed
  content is not empty and is not a JSON array whose elements are all objects; when
  parsing raises during \<^verbatim>\<open>load\<close>, the database is as it was before; and content of
  white space only parses to the empty collection.
\<close>

theorem parse_errors_exactly:
  "((\<exists>e. parseDatabaseStorage jsonParse content = Inl e) \<longleftrightarrow>
      (trim content \<noteq> [] \<and>
       \<not> (\<exists>elements. jsonParse (trim content) = Some (JArray elements) \<and>
             list_all isObject elements))) \<and>
   (hasPath (config db) \<and> reader (the (path (config db))) = Inr content \<and>
    parseDatabaseStorage jsonParse content = Inl e \<longrightarrow>
      load jsonParse reader db = (Some e, db)) \<and>
   (list_all isWhiteSpace content \<longrightarrow> parseDatabaseStorage jsonParse content = Inr [])"
proof (intro conjI impI)
  show "(\<exists>e. parseDatabaseStorage jsonParse content = Inl e) \<longleftrightarrow>
      (trim content \<noteq> [] \<and>
       \<not> (\<exists>elements. jsonParse (trim content) = Some (JArray elements) \<and>
             list_all isObject elements))"
  proof (cases "trim content = []")
    case True
    then show ?thesis by (simp add: parseDatabaseStorage_def)
  next
    case False
    show ?thesis
    proof (cases "jsonParse (trim content)")
      case None
      then show ?thesis using False by (simp add: parseDatabaseStorage_def)
    next
      case (Some v)
      show ?thesis
      proof (cases v)
        case (JArray elements)
        have "(\<exists>e. parseDatabaseStorage jsonParse content = Inl e) \<longleftrightarrow>
              (\<exists>e. parseElements elements = Inl e)"
          using False Some JArray
          by (auto simp: parseDatabaseStorage_def split: sum.splits)
        then show ?thesis
          using False Some JArray by (simp add: parseElements_error)
      qed (use False Some in \<open>simp_all add: parseDatabaseStorage_def\<close>)
    qed
  qed
next
  assume "hasPath (config db) \<and> reader (the (path (config db))) = Inr content \<and>
    parseDatabaseStorage jsonParse content = Inl e"
  then show "load jsonParse reader db = (Some e, db)"
    by (simp add: load_def)
next
  assume "list_all isWhiteSpace content"
  then show "parseDatabaseStorage jsonParse content = Inr []"
    by (simp add: parseDatabaseStorage_def trim_whitespace)
qed

text \<open>
  The theorem at the content \<^verbatim>\<open>[1]\<close> between two spaces, whose element is not an
  object, and at a content of a space, a tab and a line feed.
\<close>

theorem parse_errors_exactly_witness:
  "trim '' [1] '' \<noteq> [] \<and>
   parseDatabaseStorage
     (\<lambda>s. if s = ''[1]'' then Some (JArray [JNumber (Finite 1)]) else None) '' [1] '' =
     Inl (TypeError ''Database storage should contain only objects'') \<and>
   load (\<lambda>s. if s = ''[1]'' then Some (JArray [JNumber (Finite 1)]) else None)
     (\<lambda>p. Inr '' [1] '')
     \<lparr>documents = [[(''k'', JNull)]],
      config = \<lparr>path = Some ''db.json'', pretty = True, autoload = True, autosave = True,
                optimize = True, immutable = True, validator = None\<rparr>,
      requests = []\<rparr> =
   (Some (TypeError ''Database storage should contain only objects''),
     \<lparr>documents = [[(''k'', JNull)]],
      config = \<lparr>path = Some ''db.json'', pretty = True, autoload = True, autosave = True,
                optimize = True, immutable = True, validator = None\<rparr>,
      requests = []\<rparr>) \<and>
   list_all isWhiteSpace [CHR '' '', CHR 0x09, CHR 0x0A] \<and>
   parseDatabaseStorage
     (\<lambda>s. if s = ''[1]'' then Some (JArray [JNumber (Finite 1)]) else None)
     [CHR '' '', CHR 0x09, CHR 0x0A] = Inr []"
proof -
  have t: "trim '' [1] '' = ''[1]''"
    by (simp add: trim_def isWhiteSpace_def)
  have p: "parseDatabaseStorage
     (\<lambda>s. if s = ''[1]'' then Some (JArray [JNumber (Finite 1)]) else None) '' [1] '' =
     Inl (TypeError ''Database storage should contain only objects'')"
    by (simp add: parseDatabaseStorage_def t)
  have h: "hasPath (config \<lparr>documents = [[(''k'', JNull)]],
      config = \<lparr>path = Some ''db.json'', pretty = True, autoload = True, autosave = True,
                optimize = True, immutable = True, validator = None\<rparr>,
      requests = []\<rparr>)"
    by (simp add: hasPath_def)
  have w: "list_all isWhiteSpace [CHR '' '', CHR 0x09, CHR 0x0A]"
    by (simp add: isWhiteSpace_def)
  have l: "load (\<lambda>s. if s = ''[1]'' then Some (JArray [JNumber (Finite 1)]) else None)
     (\<lambda>p. Inr '' [1] '')
     \<lparr>documents = [[(''k'', JNull)]],
      config = \<lparr>path = Some ''db.json'', pretty = True, autoload = True, autosave = True,
                optimize = True, immutable = True, validator = None\<rparr>,
      requests = []\<rparr> =
   (Some (TypeError ''Database storage should contain only objects''),
     \<lparr>documents = [[(''k'', JNull)]],
      config = \<lparr>path = Some ''db.json'', pretty = True, autoload = True, autosave = True,
                optimize = True, immutable = True, validator = None\<rparr>,
      requests = []\<rparr>)"
    using h p parse_errors_exactly
      [of "\<lambda>s. if s = ''[1]'' then Some (JArray [JNumber (Finite 1)]) else None" "'' [1] ''"
        "\<lparr>documents = [[(''k'', JNull)]],
      config = \<lparr>path = Some ''db.json'', pretty = True, autoload = True, autosave = True,
                optimize = True, immutable = True, validator = None\<rparr>,
      requests = []\<rparr>" "\<lambda>p. Inr '' [1] ''"
        "TypeError ''Database storage should contain only objects''"]
    by blast
  have e: "parseDatabaseStorage
     (\<lambda>s. if s = ''[1]'' then Some (JArray [JNumber (Finite 1)]) else None)
     [CHR '' '', CHR 0x09, CHR 0x0A] = Inr []"
    using w parse_errors_exactly
      [of "\<lambda>s. if s = ''[1]'' then Some (JArray [JNumber (Finite 1)]) else None"
          "[CHR '' '', CHR 0x09, CHR 0x0A]"]
    by blast
  show ?thesis using t p l w e by simp
qed

section \<open>The durability coalescer\<close>

text \<open>
  Modelled from the spec: the \<^verbatim>\<open>Writer\<close> of \<^verbatim>\<open>writer.ts\<close>, which is not among the
  sources (only its test is). Spec 4.4 gives it as a state machine with the states
  Idle, Writing and Writing-with-Pending; a write replaces the whole file and shows no
  partial state, so the file changes at the completion of a write, to the snapshot
  that was written. \<^term>\<open>written\<close> is the log of the completed writes, oldest first.
\<close>

datatype mode = Idle | Writing string | WritingWithPending string string

record writer =
  onDisk :: string
  mode :: mode
  written :: "string list"

text \<open>A snapshot arrives (\<^verbatim>\<open>writer.add\<close>).\<close>

definition add :: "string \<Rightarrow> writer \<Rightarrow> writer" where
  "add snapshot w =
     (case mode w of
        Idle \<Rightarrow> w\<lparr>mode := Writing snapshot\<rparr>
      | Writing current \<Rightarrow> w\<lparr>mode := WritingWithPending current snapshot\<rparr>
      | WritingWithPending current remembered \<Rightarrow>
          w\<lparr>mode := WritingWithPending current snapshot\<rparr>)"

text \<open>The write in flight completes; with none in flight nothing happens.\<close>

definition completes :: "writer \<Rightarrow> writer" where
  "completes w =
     (case mode w of
        Idle \<Rightarrow> w
      | Writing current \<Rightarrow>
          w\<lparr>onDisk := current, mode := Idle, written := written w @ [current]\<rparr>
      | WritingWithPending current remembered \<Rightarrow>
          w\<lparr>onDisk := current, mode := Writing remembered, written := written w @ [current]\<rparr>)"

datatype event = Request string | Completion

fun step :: "writer \<Rightarrow> event \<Rightarrow> writer" where
  "step w (Request snapshot) = add snapshot w"
| "step w Completion = completes w"

definition run :: "writer \<Rightarrow> event list \<Rightarrow> writer" where
  "run w events = foldl step w events"

text \<open>The writes still to complete before the writer is idle.\<close>

fun outstanding :: "mode \<Rightarrow> nat" where
  "outstanding Idle = 0"
| "outstanding (Writing current) = 1"
| "outstanding (WritingWithPending current remembered) = 2"

text \<open>Every write that was started completes: the writer runs until it is idle.\<close>

function settle :: "writer \<Rightarrow> writer" where
  "settle w = (if mode w = Idle then w else settle (completes w))"
  by pat_completeness auto
termination
  by (relation "measure (\<lambda>w. outstanding (mode w))")
    (auto simp: completes_def split: mode.splits)

text \<open>The snapshots requested by a list of events, in order.\<close>

fun requested :: "event list \<Rightarrow> string list" where
  "requested [] = []"
| "requested (Request snapshot # events) = snapshot # requested events"
| "requested (Completion # events) = requested events"

text \<open>The snapshot that the file is to hold when the writer is idle.\<close>

definition latest :: "writer \<Rightarrow> string" where
  "latest w =
     (case mode w of
        Idle \<Rightarrow> onDisk w
      | Writing current \<Rightarrow> current
      | WritingWithPending current remembered \<Rightarrow> remembered)"

text \<open>The snapshots a writer holds: in flight and remembered.\<close>

definition held :: "writer \<Rightarrow> string set" where
  "held w =
     (case mode w of
        Idle \<Rightarrow> {}
      | Writing current \<Rightarrow> {current}
      | WritingWithPending current remembered \<Rightarrow> {current, remembered})"

declare settle.simps [simp del]

lemma settle_Idle: "mode w = Idle \<Longrightarrow> settle w = w"
  by (subst settle.simps) simp

lemma settle_step: "mode w \<noteq> Idle \<Longrightarrow> settle w = settle (completes w)"
  by (subst settle.simps) simp

lemma latest_completes: "latest (completes w) = latest w"
  by (simp add: latest_def completes_def split: mode.splits)

lemma latest_add: "latest (add s w) = s"
  by (simp add: latest_def add_def split: mode.splits)

lemma settle_file: "onDisk (settle w) = latest w \<and> mode (settle w) = Idle"
proof (induction w rule: settle.induct)
  case (1 w)
  show ?case
  proof (cases "mode w = Idle")
    case True
    then show ?thesis by (simp add: settle_Idle latest_def)
  next
    case False
    then show ?thesis using 1 by (simp add: settle_step latest_completes)
  qed
qed

lemma latest_run:
  "latest (run w events) = (if requested events = [] then latest w else last (requested events))"
proof (induction events arbitrary: w)
  case Nil
  then show ?case by (simp add: run_def)
next
  case (Cons e events)
  have IH: "latest (run (step w e) events) =
      (if requested events = [] then latest (step w e) else last (requested events))"
    using Cons.IH [of "step w e"] .
  show ?case
  proof (cases e)
    case (Request s)
    then show ?thesis using IH by (simp add: run_def latest_add)
  next
    case Completion
    then show ?thesis using IH by (simp add: run_def latest_completes)
  qed
qed

text \<open>Completed writes only grow, and by whole snapshots.\<close>

lemma written_settle:
  "length (written (settle w)) = length (written w) + outstanding (mode w) \<and>
   set (written (settle w)) \<subseteq> set (written w) \<union> held w"
proof (induction w rule: settle.induct)
  case (1 w)
  show ?case
  proof (cases "mode w")
    case Idle
    then show ?thesis by (simp add: settle_Idle)
  next
    case (Writing c)
    then have "settle w = settle (completes w)" by (simp add: settle_step)
    moreover have "mode w \<noteq> Idle" using Writing by simp
    ultimately show ?thesis
      using 1 [OF \<open>mode w \<noteq> Idle\<close>] Writing
      by (auto simp: completes_def held_def)
  next
    case (WritingWithPending c r)
    then have "settle w = settle (completes w)" by (simp add: settle_step)
    moreover have "mode w \<noteq> Idle" using WritingWithPending by simp
    ultimately show ?thesis
      using 1 [OF \<open>mode w \<noteq> Idle\<close>] WritingWithPending
      by (auto simp: completes_def held_def)
  qed
qed

lemma step_potential:
  "length (written w) + outstanding (mode w) \<le>
     length (written (step w e)) + outstanding (mode (step w e))"
  by (cases e) (simp_all add: add_def completes_def split: mode.splits)

lemma step_written_length: "length (written w) \<le> length (written (step w e))"
  by (cases e) (simp_all add: add_def completes_def split: mode.splits)

lemma step_snapshots:
  "set (written (step w e)) \<union> held (step w e) \<subseteq>
     set (written w) \<union> held w \<union> set (requested [e])"
  by (cases e) (auto simp: add_def completes_def held_def split: mode.splits)

lemma run_Cons: "run w (e # events) = run (step w e) events"
  by (simp add: run_def)

lemma run_potential:
  "length (written w) + outstanding (mode w) \<le>
     length (written (run w events)) + outstanding (mode (run w events))"
proof (induction events arbitrary: w)
  case Nil
  then show ?case by (simp add: run_def)
next
  case (Cons e events)
  show ?case
    unfolding run_Cons
    using step_potential [of w e] Cons.IH [of "step w e"] by (rule order_trans)
qed

lemma run_written_length: "length (written w) \<le> length (written (run w events))"
proof (induction events arbitrary: w)
  case Nil
  then show ?case by (simp add: run_def)
next
  case (Cons e events)
  show ?case
    unfolding run_Cons
    using step_written_length [of w e] Cons.IH [of "step w e"] by (rule order_trans)
qed

lemma run_snapshots:
  "set (written (run w events)) \<union> held (run w events) \<subseteq>
     set (written w) \<union> held w \<union> set (requested events)"
proof (induction events arbitrary: w)
  case Nil
  then show ?case by (simp add: run_def)
next
  case (Cons e events)
  have q: "set (requested (e # events)) = set (requested [e]) \<union> set (requested events)"
    by (cases e) auto
  show ?case
    unfolding run_Cons q using Cons.IH [of "step w e"] step_snapshots [of w e]
    by blast
qed

lemma step_onDisk: "onDisk (step w e) = onDisk w \<or> onDisk (step w e) \<in> held w"
  by (cases e) (auto simp: add_def completes_def held_def split: mode.splits)

lemma step_held: "held (step w e) \<subseteq> held w \<union> set (requested [e])"
  by (cases e) (auto simp: add_def completes_def held_def split: mode.splits)

lemma insert_held_mono:
  "x = y \<or> x \<in> H \<Longrightarrow> H' \<subseteq> H \<union> E \<Longrightarrow> insert x (H' \<union> R) \<subseteq> insert y (H \<union> (E \<union> R))"
  by auto

lemma run_onDisk_held:
  "insert (onDisk (run w events)) (held (run w events)) \<subseteq>
     insert (onDisk w) (held w \<union> set (requested events))"
proof (induction events arbitrary: w)
  case Nil
  then show ?case by (simp add: run_def)
next
  case (Cons e events)
  have q: "set (requested (e # events)) = set (requested [e]) \<union> set (requested events)"
    by (cases e) auto
  have mid: "insert (onDisk (step w e)) (held (step w e) \<union> set (requested events)) \<subseteq>
      insert (onDisk w) (held w \<union> (set (requested [e]) \<union> set (requested events)))"
    using step_onDisk [of w e] step_held [of w e] by (rule insert_held_mono)
  show ?case
    unfolding run_Cons q
    using Cons.IH [of "step w e"] mid by (rule subset_trans)
qed

lemma requested_append: "requested (xs @ ys) = requested xs @ requested ys"
  by (induction xs rule: requested.induct) simp_all

lemma requested_take: "set (requested (take n events)) \<subseteq> set (requested events)"
proof -
  have "requested events = requested (take n events) @ requested (drop n events)"
    using requested_append [of "take n events" "drop n events"] by simp
  then show ?thesis by simp
qed

lemma settle_pending:
  "settle (w\<lparr>mode := WritingWithPending current s3\<rparr>) =
      w\<lparr>onDisk := s3, mode := Idle, written := written w @ [current, s3]\<rparr>"
proof -
  let ?w1 = "w\<lparr>mode := WritingWithPending current s3\<rparr>"
  let ?w2 = "w\<lparr>onDisk := current, mode := Writing s3, written := written w @ [current]\<rparr>"
  let ?w3 = "w\<lparr>onDisk := s3, mode := Idle, written := written w @ [current, s3]\<rparr>"
  have c1: "completes ?w1 = ?w2" by (simp add: completes_def)
  have c2: "completes ?w2 = ?w3" by (simp add: completes_def)
  have "settle ?w1 = settle ?w2" using settle_step [of ?w1] c1 by simp
  also have "\<dots> = settle ?w3" using settle_step [of ?w2] c2 by simp
  also have "\<dots> = ?w3" by (rule settle_Idle) simp
  finally show ?thesis .
qed

lemma requested_split:
  "requested events \<noteq> [] \<Longrightarrow> \<exists>before s after. events = before @ Request s # after"
proof (induction events rule: requested.induct)
  case 1
  then show ?case by simp
next
  case (2 snapshot events)
  show ?case by (rule exI [of _ "[]"]) simp
next
  case (3 events)
  then obtain before s after where "events = before @ Request s # after" by auto
  then have "Completion # events = (Completion # before) @ Request s # after" by simp
  then show ?case by blast
qed

lemma settle_as_run: "settle w = run w (replicate (outstanding (mode w)) Completion)"
proof (induction w rule: settle.induct)
  case (1 w)
  show ?case
  proof (cases "mode w")
    case Idle
    then show ?thesis by (simp add: settle_Idle run_def)
  next
    case (Writing c)
    then have "mode w \<noteq> Idle" by simp
    then show ?thesis
      using 1 Writing by (simp add: settle_step run_def completes_def)
  next
    case (WritingWithPending c r)
    then have "mode w \<noteq> Idle" by simp
    then show ?thesis
      using 1 WritingWithPending
      by (simp add: settle_step run_def completes_def numeral_2_eq_2)
  qed
qed


text \<open>
  C9. With a write of some snapshot in flight, three requests S1, S2, S3 leave the
  writer with S3 remembered and nothing else; when the writes complete the file holds
  S3, and the writes that completed are the one in flight and S3, so S1 and S2 never
  reach the file. For every sequence of requests and completions with at least one
  request: once the started writes complete the writer is idle, the file holds the
  snapshot requested last, and at least one more write has completed. At every moment
  the file holds its first content or one whole snapshot that was in flight, remembered
  or requested. Completing the started writes is a run of at most two completions.
\<close>

theorem coalescing_latest_snapshot:
  "(mode w = Writing current \<longrightarrow>
      run w [Request s1, Request s2, Request s3] = w\<lparr>mode := WritingWithPending current s3\<rparr> \<and>
      onDisk (settle (run w [Request s1, Request s2, Request s3])) = s3 \<and>
      written (settle (run w [Request s1, Request s2, Request s3])) =
        written w @ [current, s3]) \<and>
   (requested events \<noteq> [] \<longrightarrow>
      mode (settle (run w events)) = Idle \<and>
      onDisk (settle (run w events)) = last (requested events) \<and>
      length (written w) < length (written (settle (run w events)))) \<and>
   onDisk (run w (take n events)) \<in> insert (onDisk w) (held w \<union> set (requested events)) \<and>
   settle w = run w (replicate (outstanding (mode w)) Completion)"
proof (intro conjI impI)
  assume m: "mode w = Writing current"
  show r: "run w [Request s1, Request s2, Request s3] =
      w\<lparr>mode := WritingWithPending current s3\<rparr>"
    using m by (simp add: run_def add_def)
  have s: "settle (w\<lparr>mode := WritingWithPending current s3\<rparr>) =
      w\<lparr>onDisk := s3, mode := Idle, written := written w @ [current, s3]\<rparr>"
    by (rule settle_pending)
  show "onDisk (settle (run w [Request s1, Request s2, Request s3])) = s3"
    unfolding r s by simp
  show "written (settle (run w [Request s1, Request s2, Request s3])) =
        written w @ [current, s3]"
    unfolding r s by simp
next
  assume q: "requested events \<noteq> []"
  show "mode (settle (run w events)) = Idle"
    by (simp add: settle_file)
  show "onDisk (settle (run w events)) = last (requested events)"
    using q by (simp add: settle_file latest_run)
  obtain before s after where split: "events = before @ Request s # after"
    using requested_split [OF q] by blast
  let ?w1 = "run w before"
  let ?w2 = "add s ?w1"
  have run: "run w events = run ?w2 after"
    by (simp add: split run_def)
  have "length (written w) \<le> length (written ?w1)"
    by (rule run_written_length)
  moreover have "length (written ?w2) = length (written ?w1) \<and> 0 < outstanding (mode ?w2)"
    by (simp add: add_def split: mode.splits)
  moreover have "length (written ?w2) + outstanding (mode ?w2) \<le>
      length (written (run ?w2 after)) + outstanding (mode (run ?w2 after))"
    by (rule run_potential)
  moreover have "length (written (settle (run ?w2 after))) =
      length (written (run ?w2 after)) + outstanding (mode (run ?w2 after))"
    using written_settle by blast
  ultimately show "length (written w) < length (written (settle (run w events)))"
    unfolding run by linarith
next
  show "onDisk (run w (take n events)) \<in> insert (onDisk w) (held w \<union> set (requested events))"
    using run_onDisk_held [of w "take n events"] requested_take [of n events] by blast
next
  show "settle w = run w (replicate (outstanding (mode w)) Completion)"
    by (rule settle_as_run)
qed


text \<open>
  The theorem with a write of S0 in flight and the requests S1, S2, S3, and at the test
  of the repository: an idle writer, the requests old and new, and new in the file.
\<close>

theorem coalescing_latest_snapshot_witness:
  "mode \<lparr>onDisk = ''[]'', mode = Writing ''S0'', written = []\<rparr> = Writing ''S0'' \<and>
   onDisk (settle (run \<lparr>onDisk = ''[]'', mode = Writing ''S0'', written = []\<rparr>
     [Request ''S1'', Request ''S2'', Request ''S3''])) = ''S3'' \<and>
   written (settle (run \<lparr>onDisk = ''[]'', mode = Writing ''S0'', written = []\<rparr>
     [Request ''S1'', Request ''S2'', Request ''S3''])) = [''S0'', ''S3''] \<and>
   requested [Request ''old'', Request ''new''] \<noteq> [] \<and>
   onDisk (settle (run \<lparr>onDisk = [], mode = Idle, written = []\<rparr>
     [Request ''old'', Request ''new''])) = ''new'' \<and>
   length (written \<lparr>onDisk = [], mode = Idle, written = []\<rparr>) <
     length (written (settle (run \<lparr>onDisk = [], mode = Idle, written = []\<rparr>
       [Request ''old'', Request ''new''])))"
proof -
  have m: "mode \<lparr>onDisk = ''[]'', mode = Writing ''S0'', written = []\<rparr> = Writing ''S0''"
    by simp
  have q: "requested [Request ''old'', Request ''new''] \<noteq> []"
    by simp
  note a = coalescing_latest_snapshot
      [of "\<lparr>onDisk = ''[]'', mode = Writing ''S0'', written = []\<rparr>" "''S0''"
          "''S1''" "''S2''" "''S3''" "[]" 0, THEN conjunct1, THEN mp, OF m]
  note b = coalescing_latest_snapshot
      [of "\<lparr>onDisk = [], mode = Idle, written = []\<rparr>" "''S0''" "''S1''" "''S2''" "''S3''"
          "[Request ''old'', Request ''new'']" 0, THEN conjunct2, THEN conjunct1, THEN mp, OF q]
  have a': "written \<lparr>onDisk = ''[]'', mode = Writing ''S0'', written = []\<rparr> @ [''S0'', ''S3'']
      = [''S0'', ''S3'']"
    by simp
  show ?thesis
    using m q a [THEN conjunct2] b [THEN conjunct2] unfolding a' by simp
qed

section \<open>The update engine\<close>

text \<open>
  \<^verbatim>\<open>updateDocument\<close> copies its argument, writes to the copy and normalises it in
  place, and what it may share with the objects of the caller matters. So here objects
  and arrays are cells of a store, and a value refers to a cell by its address: two
  values with the same address are the same object, and a write through one is seen
  through the other. A store is the list of its cells; a new cell goes to the end, so an
  address is never reused.
\<close>

type_synonym address = nat

datatype hvalue =
    HUndefined
  | HNull
  | HBoolean bool
  | HNumber jsnumber
  | HString string
  | HRef address

datatype cell = ObjectCell "(string \<times> hvalue) list" | ArrayCell "hvalue list"

type_synonym store = "cell list"

fun truthyS :: "hvalue \<Rightarrow> bool" where
  "truthyS HUndefined = False"
| "truthyS HNull = False"
| "truthyS (HBoolean b) = b"
| "truthyS (HNumber n) = (n \<noteq> NaN \<and> n \<noteq> Finite 0)"
| "truthyS (HString s) = (s \<noteq> [])"
| "truthyS (HRef a) = True"

text \<open>The fields of the object at an address; none for an array or a missing cell.\<close>

definition fieldsAt :: "store \<Rightarrow> address \<Rightarrow> (string \<times> hvalue) list" where
  "fieldsAt s a =
     (if a < length s then (case s ! a of ObjectCell fs \<Rightarrow> fs | ArrayCell xs \<Rightarrow> []) else [])"

definition isObjectS :: "store \<Rightarrow> hvalue \<Rightarrow> bool" where
  "isObjectS s v =
     (case v of
        HRef a \<Rightarrow> a < length s \<and> (case s ! a of ObjectCell fs \<Rightarrow> True | ArrayCell xs \<Rightarrow> False)
      | _ \<Rightarrow> False)"

text \<open>
  \<^verbatim>\<open>newDocument[key]\<close> on the store: the value of the own field, the inherited
  property for a key that names a property of \<^verbatim>\<open>Object.prototype\<close>, and
  \<^verbatim>\<open>undefined\<close> otherwise, as for \<^const>\<open>getField\<close>.
\<close>

datatype fieldS = ValueS hvalue | InheritedS string

definition getFieldS :: "store \<Rightarrow> address \<Rightarrow> string \<Rightarrow> fieldS" where
  "getFieldS s a key =
     (case map_of (fieldsAt s a) key of
        Some v \<Rightarrow> ValueS v
      | None \<Rightarrow> if key \<in> set objectPrototype then InheritedS key else ValueS HUndefined)"

text \<open>
  \<^verbatim>\<open>delete newDocument[key]\<close> and \<^verbatim>\<open>newDocument[key] = result\<close> on the list of
  the fields of an object: an assignment keeps the place of a field that exists and
  appends a new one. (JavaScript enumerates integer-like keys before the others; such
  keys are outside the model.)
\<close>

definition deleteField :: "(string \<times> 'a) list \<Rightarrow> string \<Rightarrow> (string \<times> 'a) list" where
  "deleteField d key = filter (\<lambda>(k, v). k \<noteq> key) d"

fun setField :: "(string \<times> 'a) list \<Rightarrow> string \<Rightarrow> 'a \<Rightarrow> (string \<times> 'a) list" where
  "setField [] key v = [(key, v)]"
| "setField ((k, w) # d) key v = (if k = key then (k, v) # d else (k, w) # setField d key v)"

text \<open>Writes to an object in place; they leave an array or a missing cell alone.\<close>

definition setFieldS :: "store \<Rightarrow> address \<Rightarrow> string \<Rightarrow> hvalue \<Rightarrow> store" where
  "setFieldS s a key v =
     (if a < length s then
        (case s ! a of
           ObjectCell fs \<Rightarrow> s[a := ObjectCell (setField fs key v)]
         | ArrayCell xs \<Rightarrow> s)
      else s)"

definition deleteFieldS :: "store \<Rightarrow> address \<Rightarrow> string \<Rightarrow> store" where
  "deleteFieldS s a key =
     (if a < length s then
        (case s ! a of
           ObjectCell fs \<Rightarrow> s[a := ObjectCell (deleteField fs key)]
         | ArrayCell xs \<Rightarrow> s)
      else s)"

text \<open>
  Modelled from the spec: \<^verbatim>\<open>deepClone\<close> of \<^verbatim>\<open>utils.ts\<close> (not among the
  sources), on the store: a deep copy, every object and array reached is copied into a
  new cell. The first argument bounds the depth of references followed; the result is
  \<^term>\<open>None\<close> when the bound is reached, as it is for every bound on a cyclic value,
  or when an address has no cell.
\<close>

fun deepCloneS :: "nat \<Rightarrow> store \<Rightarrow> hvalue \<Rightarrow> (hvalue \<times> store) option"
  and cloneFields ::
    "nat \<Rightarrow> store \<Rightarrow> (string \<times> hvalue) list \<Rightarrow> ((string \<times> hvalue) list \<times> store) option"
  and cloneItems :: "nat \<Rightarrow> store \<Rightarrow> hvalue list \<Rightarrow> (hvalue list \<times> store) option"
where
  "deepCloneS 0 s (HRef a) = None"
| "deepCloneS (Suc n) s (HRef a) =
     (if a < length s then
        (case s ! a of
           ObjectCell fs \<Rightarrow>
             (case cloneFields n s fs of
                None \<Rightarrow> None
              | Some (fs', s') \<Rightarrow> Some (HRef (length s'), s' @ [ObjectCell fs']))
         | ArrayCell xs \<Rightarrow>
             (case cloneItems n s xs of
                None \<Rightarrow> None
              | Some (xs', s') \<Rightarrow> Some (HRef (length s'), s' @ [ArrayCell xs'])))
      else None)"
| "deepCloneS n s HUndefined = Some (HUndefined, s)"
| "deepCloneS n s HNull = Some (HNull, s)"
| "deepCloneS n s (HBoolean b) = Some (HBoolean b, s)"
| "deepCloneS n s (HNumber x) = Some (HNumber x, s)"
| "deepCloneS n s (HString x) = Some (HString x, s)"
| "cloneFields n s [] = Some ([], s)"
| "cloneFields n s ((key, v) # fs) =
     (case deepCloneS n s v of
        None \<Rightarrow> None
      | Some (v', s1) \<Rightarrow>
          (case cloneFields n s1 fs of
             None \<Rightarrow> None
           | Some (fs', s2) \<Rightarrow> Some ((key, v') # fs', s2)))"
| "cloneItems n s [] = Some ([], s)"
| "cloneItems n s (v # xs) =
     (case deepCloneS n s v of
        None \<Rightarrow> None
      | Some (v', s1) \<Rightarrow>
          (case cloneItems n s1 xs of
             None \<Rightarrow> None
           | Some (xs', s2) \<Rightarrow> Some (v' # xs', s2)))"

text \<open>
  Modelled from the spec: \<^verbatim>\<open>prepareObject\<close> of \<^verbatim>\<open>utils.ts\<close> (not among the
  sources), on the store. The source calls it for its effect, so it works in place:
  the fields of the object that hold the absent marker are deleted, and the objects and
  arrays that its fields refer to are normalised in turn, as are those that the elements
  of an array refer to. The first argument bounds the depth, as in \<^const>\<open>deepCloneS\<close>.
\<close>

fun prepareObjectS :: "nat \<Rightarrow> store \<Rightarrow> address \<Rightarrow> store option"
  and prepareItems :: "nat \<Rightarrow> store \<Rightarrow> hvalue list \<Rightarrow> store option"
where
  "prepareObjectS 0 s a = None"
| "prepareObjectS (Suc n) s a =
     (if a < length s then
        (case s ! a of
           ObjectCell fs \<Rightarrow>
             prepareItems n (s[a := ObjectCell (filter (\<lambda>(key, v). v \<noteq> HUndefined) fs)])
               (map snd fs)
         | ArrayCell xs \<Rightarrow> prepareItems n s xs)
      else None)"
| "prepareItems n s [] = Some s"
| "prepareItems n s (HRef b # xs) =
     (case prepareObjectS n s b of
        None \<Rightarrow> None
      | Some s' \<Rightarrow> prepareItems n s' xs)"
| "prepareItems n s (v # xs) = prepareItems n s xs"

text \<open>A cell none of whose fields holds the absent marker.\<close>

fun noAbsentCell :: "cell \<Rightarrow> bool" where
  "noAbsentCell (ObjectCell fs) = list_all (\<lambda>(key, v). v \<noteq> HUndefined) fs"
| "noAbsentCell (ArrayCell xs) = True"

text \<open>
  \<^term>\<open>same N s s'\<close>: the cells below N are the same in both stores.
  \<^term>\<open>keeps N s s'\<close>: the cells below N without an absent field are the same in both.
\<close>

definition same :: "nat \<Rightarrow> store \<Rightarrow> store \<Rightarrow> bool" where
  "same N s s' = (N \<le> length s \<and> N \<le> length s' \<and> take N s' = take N s)"

definition keeps :: "nat \<Rightarrow> store \<Rightarrow> store \<Rightarrow> bool" where
  "keeps N s s' =
     (N \<le> length s \<and> N \<le> length s' \<and> (\<forall>i<N. noAbsentCell (s ! i) \<longrightarrow> s' ! i = s ! i))"

lemma same_nth: "same N s s' \<Longrightarrow> i < N \<Longrightarrow> s' ! i = s ! i"
  by (metis nth_take same_def)

lemma same_iff:
  "same N s s' \<longleftrightarrow> N \<le> length s \<and> N \<le> length s' \<and> (\<forall>i<N. s' ! i = s ! i)"
proof
  assume "same N s s'"
  then show "N \<le> length s \<and> N \<le> length s' \<and> (\<forall>i<N. s' ! i = s ! i)"
    using same_nth by (simp add: same_def)
next
  assume a: "N \<le> length s \<and> N \<le> length s' \<and> (\<forall>i<N. s' ! i = s ! i)"
  then have "take N s' = take N s"
    by (intro nth_take_lemma) simp_all
  then show "same N s s'" using a by (simp add: same_def)
qed


lemma same_trans: "same N s s1 \<Longrightarrow> same N s1 s2 \<Longrightarrow> same N s s2"
  by (simp add: same_def)


lemma keeps_trans: "keeps N s s1 \<Longrightarrow> keeps N s1 s2 \<Longrightarrow> keeps N s s2"
  by (simp add: keeps_def)

lemma same_append: "N \<le> length s \<Longrightarrow> same N s (s @ ext)"
  by (simp add: same_def)


subsection \<open>A copy only adds cells\<close>

lemma deepCloneS_extends:
  "deepCloneS n s v = Some (v', s') \<Longrightarrow> \<exists>ext. s' = s @ ext"
  "cloneFields n s fs = Some (fs', s') \<Longrightarrow> \<exists>ext. s' = s @ ext"
  "cloneItems n s xs = Some (xs', s') \<Longrightarrow> \<exists>ext. s' = s @ ext"
proof (induction n s v and n s fs and n s xs arbitrary: v' s' and fs' s' and xs' s'
    rule: deepCloneS_cloneFields_cloneItems.induct)
  case (2 n s a)
  then show ?case
    by (auto split: if_splits cell.splits option.splits) (metis append.assoc)+
next
  case (9 n s key v fs)
  from "9.prems" obtain v1 s1 fs1 where
    a: "deepCloneS n s v = Some (v1, s1)" and b: "cloneFields n s1 fs = Some (fs1, s')"
    by (auto split: option.splits)
  from "9.IH"(1) [OF a] obtain e1 where "s1 = s @ e1" by blast
  moreover from "9.IH"(2) [OF a refl b] obtain e2 where "s' = s1 @ e2" by blast
  ultimately show ?case by simp
next
  case (11 n s v xs)
  from "11.prems" obtain v1 s1 xs1 where
    a: "deepCloneS n s v = Some (v1, s1)" and b: "cloneItems n s1 xs = Some (xs1, s')"
    by (auto split: option.splits)
  from "11.IH"(1) [OF a] obtain e1 where "s1 = s @ e1" by blast
  moreover from "11.IH"(2) [OF a refl b] obtain e2 where "s' = s1 @ e2" by blast
  ultimately show ?case by simp
qed auto

lemma deepCloneS_same: "deepCloneS n s v = Some (v', s') \<Longrightarrow> same (length s) s s'"
  using deepCloneS_extends(1) same_append by blast


subsection \<open>Normalisation only deletes absent fields\<close>

lemma filter_noAbsent:
  "list_all (\<lambda>(key, v). v \<noteq> HUndefined) fs \<Longrightarrow> filter (\<lambda>(key, v). v \<noteq> HUndefined) fs = fs"
  by (induction fs) auto

lemma strip_keeps:
  assumes "a < length s" and "s ! a = ObjectCell fs" and "N \<le> length s"
  shows "keeps N s (s[a := ObjectCell (filter (\<lambda>(key, v). v \<noteq> HUndefined) fs)])"
proof -
  have "filter (\<lambda>(key, v). v \<noteq> HUndefined) fs = fs" if "noAbsentCell (s ! a)"
    using that assms(2) by (simp add: filter_noAbsent)
  then show ?thesis
    using assms by (auto simp: keeps_def nth_list_update)
qed

lemma prepareObjectS_keeps:
  "prepareObjectS n s a = Some s' \<Longrightarrow> N \<le> length s \<Longrightarrow> keeps N s s'"
  "prepareItems n s xs = Some s' \<Longrightarrow> N \<le> length s \<Longrightarrow> keeps N s s'"
proof (induction n s a and n s xs arbitrary: s' and s'
    rule: prepareObjectS_prepareItems.induct)
  case (1 s a)
  then show ?case by simp
next
  case (2 n s a)
  from "2.prems"(1) have a: "a < length s" by (simp split: if_splits)
  show ?case
  proof (cases "s ! a")
    case (ObjectCell fs)
    let ?s0 = "s[a := ObjectCell (filter (\<lambda>(key, v). v \<noteq> HUndefined) fs)]"
    have k0: "keeps N s ?s0" using a ObjectCell "2.prems"(2) by (rule strip_keeps)
    have p: "prepareItems n ?s0 (map snd fs) = Some s'"
      using "2.prems"(1) a ObjectCell by simp
    have "N \<le> length ?s0" using "2.prems"(2) by simp
    then have "keeps N ?s0 s'" using "2.IH"(1) [OF a ObjectCell p] by blast
    with k0 show ?thesis by (rule keeps_trans)
  next
    case (ArrayCell xs)
    have p: "prepareItems n s xs = Some s'"
      using "2.prems"(1) a ArrayCell by simp
    show ?thesis using "2.IH"(2) [OF a ArrayCell p "2.prems"(2)] .
  qed
next
  case (3 n s)
  then show ?case by (simp add: keeps_def)
next
  case (4 n s b xs)
  from "4.prems"(1) obtain s1 where
    p: "prepareObjectS n s b = Some s1" and q: "prepareItems n s1 xs = Some s'"
    by (auto split: option.splits)
  have k1: "keeps N s s1" using "4.IH"(1) [OF p "4.prems"(2)] .
  then have "N \<le> length s1" by (simp add: keeps_def)
  then have "keeps N s1 s'" using "4.IH"(2) [OF p q] by blast
  with k1 show ?case by (rule keeps_trans)
qed auto

text \<open>
  A function of the caller (a transform of the document or of a field): it is given the
  store and its argument and returns its result and the store it leaves. The transform
  of a field is given what \<^verbatim>\<open>newDocument[key]\<close> reads. A function that raises is
  outside the model.
\<close>

type_synonym callback = "store \<Rightarrow> hvalue \<Rightarrow> hvalue \<times> store"

type_synonym fieldCallback = "store \<Rightarrow> fieldS \<Rightarrow> hvalue \<times> store"

datatype updateValue = UValue hvalue | UFunction fieldCallback

datatype update =
    UpdateObject "(string \<times> updateValue) list"
  | UpdateFunction callback

text \<open>The loop over the fields of a field-map update, on the object at address a.\<close>

fun updateFields :: "(string \<times> updateValue) list \<Rightarrow> store \<Rightarrow> address \<Rightarrow> store" where
  "updateFields [] s a = s"
| "updateFields ((key, value) # updates) s a =
     (let (result, s1) =
            (case value of UFunction f \<Rightarrow> f s (getFieldS s a key) | UValue v \<Rightarrow> (v, s))
      in if result = HUndefined then updateFields updates (deleteFieldS s1 a key) a
         else updateFields updates (setFieldS s1 a key result) a)"

text \<open>
  Lines 92 to 111: the working document before normalisation, with the store it is
  in; \<^term>\<open>Inr None\<close> is the early \<^verbatim>\<open>return null\<close>. The call has no result
  in the model (\<^term>\<open>None\<close>) when the copy has none or when the document is not an
  object.
\<close>

definition workingDocument ::
  "nat \<Rightarrow> store \<Rightarrow> hvalue \<Rightarrow> update \<Rightarrow> ((error + hvalue option) \<times> store) option" where
  "workingDocument n s document update =
     (if \<not> isObjectS s document then None
      else (case deepCloneS n s document of
              None \<Rightarrow> None
            | Some (newDocument, s1) \<Rightarrow>
                (case update of
                   UpdateFunction f \<Rightarrow>
                     (let (returned, s2) = f s1 newDocument in
                      if \<not> truthyS returned then Some (Inr None, s2)
                      else if \<not> isObjectS s2 returned
                        then Some (Inl (TypeError ''Document must be an object''), s2)
                      else Some (Inr (Some returned), s2))
                 | UpdateObject updates \<Rightarrow>
                     (case newDocument of
                        HRef a \<Rightarrow> Some (Inr (Some newDocument), updateFields updates s1 a)
                      | _ \<Rightarrow> None))))"

text \<open>
  Lines 113 to 116: normalise the working document in place, return \<^verbatim>\<open>null\<close> when it
  has no field left, and a copy of it otherwise.
\<close>

definition finishDocument :: "nat \<Rightarrow> store \<Rightarrow> hvalue \<Rightarrow> ((error + hvalue option) \<times> store) option" where
  "finishDocument n s newDocument =
     (case newDocument of
        HRef a \<Rightarrow>
          (case prepareObjectS n s a of
             None \<Rightarrow> None
           | Some s1 \<Rightarrow>
               if isObjectEmpty (fieldsAt s1 a) then Some (Inr None, s1)
               else (case deepCloneS n s1 newDocument of
                       None \<Rightarrow> None
                     | Some (copy, s2) \<Rightarrow> Some (Inr (Some copy), s2)))
      | _ \<Rightarrow> None)"

text \<open>
  \<^verbatim>\<open>updateDocument\<close>: the result, \<^term>\<open>Inr None\<close> for the deletion signal
  \<^verbatim>\<open>null\<close>, and the store after the call.
\<close>

definition updateDocument ::
  "nat \<Rightarrow> store \<Rightarrow> hvalue \<Rightarrow> update \<Rightarrow> ((error + hvalue option) \<times> store) option" where
  "updateDocument n s document update =
     (case workingDocument n s document update of
        None \<Rightarrow> None
      | Some (Inl e, s2) \<Rightarrow> Some (Inl e, s2)
      | Some (Inr None, s2) \<Rightarrow> Some (Inr None, s2)
      | Some (Inr (Some newDocument), s2) \<Rightarrow> finishDocument n s2 newDocument)"



text \<open>
  The value at an address, read through the store to the given depth: the document as
  the caller sees it.
\<close>

fun readValue :: "nat \<Rightarrow> store \<Rightarrow> hvalue \<Rightarrow> jsvalue option"
  and readFields :: "nat \<Rightarrow> store \<Rightarrow> (string \<times> hvalue) list \<Rightarrow> (string \<times> jsvalue) list option"
  and readItems :: "nat \<Rightarrow> store \<Rightarrow> hvalue list \<Rightarrow> jsvalue list option"
where
  "readValue 0 s (HRef a) = None"
| "readValue (Suc n) s (HRef a) =
     (if a < length s then
        (case s ! a of
           ObjectCell fs \<Rightarrow> map_option JObject (readFields n s fs)
         | ArrayCell xs \<Rightarrow> map_option JArray (readItems n s xs))
      else None)"
| "readValue n s HUndefined = Some JUndefined"
| "readValue n s HNull = Some JNull"
| "readValue n s (HBoolean b) = Some (JBoolean b)"
| "readValue n s (HNumber x) = Some (JNumber x)"
| "readValue n s (HString x) = Some (JString x)"
| "readFields n s [] = Some []"
| "readFields n s ((key, v) # fs) =
     (case readValue n s v of
        None \<Rightarrow> None
      | Some t \<Rightarrow> map_option (\<lambda>ts. (key, t) # ts) (readFields n s fs))"
| "readItems n s [] = Some []"
| "readItems n s (v # xs) =
     (case readValue n s v of
        None \<Rightarrow> None
      | Some t \<Rightarrow> map_option (\<lambda>ts. t # ts) (readItems n s xs))"

subsection \<open>The writes of the engine\<close>






lemma read_undefined: "readValue n s v = Some JUndefined \<Longrightarrow> v = HUndefined"
  by (cases n; cases v) (auto split: if_splits cell.splits)

lemma readValue_keeps:
  "readValue n s v = Some t \<Longrightarrow> noAbsentValue t \<Longrightarrow> keeps (length s) s s' \<Longrightarrow>
     readValue n s' v = Some t"
  "readFields n s fs = Some ts \<Longrightarrow> noAbsentFields ts \<Longrightarrow> keeps (length s) s s' \<Longrightarrow>
     readFields n s' fs = Some ts \<and> list_all (\<lambda>(key, v). v \<noteq> HUndefined) fs"
  "readItems n s xs = Some us \<Longrightarrow> noAbsentItems us \<Longrightarrow> keeps (length s) s s' \<Longrightarrow>
     readItems n s' xs = Some us"
proof (induction n s v and n s fs and n s xs arbitrary: t and ts and us
    rule: readValue_readFields_readItems.induct)
  case (2 n s a)
  from "2.prems"(1) have a: "a < length s" by (simp split: if_splits)
  then have a': "a < length s'" using "2.prems"(3) by (simp add: keeps_def)
  show ?case
  proof (cases "s ! a")
    case (ObjectCell fs)
    from "2.prems"(1) a ObjectCell obtain ts where
      r: "readFields n s fs = Some ts" and t: "t = JObject ts"
      by auto
    have "noAbsentFields ts" using "2.prems"(2) t by simp
    then have ih: "readFields n s' fs = Some ts \<and> list_all (\<lambda>(key, v). v \<noteq> HUndefined) fs"
      using "2.IH"(1) [OF a ObjectCell r] "2.prems"(3) by blast
    then have "noAbsentCell (s ! a)" using ObjectCell by simp
    then have "s' ! a = s ! a" using "2.prems"(3) a by (simp add: keeps_def)
    then show ?thesis using ih a' ObjectCell t by simp
  next
    case (ArrayCell xs)
    from "2.prems"(1) a ArrayCell obtain us where
      r: "readItems n s xs = Some us" and t: "t = JArray us"
      by auto
    have "noAbsentItems us" using "2.prems"(2) t by simp
    then have ih: "readItems n s' xs = Some us"
      using "2.IH"(2) [OF a ArrayCell r] "2.prems"(3) by blast
    have "noAbsentCell (s ! a)" using ArrayCell by simp
    then have "s' ! a = s ! a" using "2.prems"(3) a by (simp add: keeps_def)
    then show ?thesis using ih a' ArrayCell t by simp
  qed
next
  case (9 n s key v fs)
  from "9.prems"(1) obtain t1 ts1 where
    a: "readValue n s v = Some t1" and b: "readFields n s fs = Some ts1"
    and ts: "ts = (key, t1) # ts1"
    by (auto split: option.splits)
  have na: "t1 \<noteq> JUndefined" "noAbsentValue t1" "noAbsentFields ts1"
    using "9.prems"(2) ts by simp_all
  have v: "v \<noteq> HUndefined" using a na(1) by (cases n) auto
  have "readValue n s' v = Some t1"
    using "9.IH"(1) [OF a na(2) "9.prems"(3)] .
  moreover have "readFields n s' fs = Some ts1 \<and> list_all (\<lambda>(key, v). v \<noteq> HUndefined) fs"
    using "9.IH"(2) [OF a b na(3) "9.prems"(3)] .
  ultimately show ?case using ts v by simp
next
  case (11 n s v xs)
  from "11.prems"(1) obtain t1 us1 where
    a: "readValue n s v = Some t1" and b: "readItems n s xs = Some us1"
    and us: "us = t1 # us1"
    by (auto split: option.splits)
  have na: "noAbsentValue t1" "noAbsentItems us1"
    using "11.prems"(2) us by simp_all
  have "readValue n s' v = Some t1"
    using "11.IH"(1) [OF a na(1) "11.prems"(3)] .
  moreover have "readItems n s' xs = Some us1"
    using "11.IH"(2) [OF a b na(2) "11.prems"(3)] .
  ultimately show ?case using us by simp
qed auto

lemma readValue_same:
  "readValue n s v = Some t \<Longrightarrow> same (length s) s s' \<Longrightarrow> readValue n s' v = Some t"
  "readFields n s fs = Some ts \<Longrightarrow> same (length s) s s' \<Longrightarrow> readFields n s' fs = Some ts"
  "readItems n s xs = Some us \<Longrightarrow> same (length s) s s' \<Longrightarrow> readItems n s' xs = Some us"
proof (induction n s v and n s fs and n s xs arbitrary: t and ts and us
    rule: readValue_readFields_readItems.induct)
  case (2 n s a)
  from "2.prems"(1) have a: "a < length s" by (simp split: if_splits)
  then have a': "a < length s'" and eq: "s' ! a = s ! a"
    using "2.prems"(2) by (simp_all add: same_iff)
  show ?case
  proof (cases "s ! a")
    case (ObjectCell fs)
    from "2.prems"(1) a ObjectCell obtain ts where
      r: "readFields n s fs = Some ts" and t: "t = JObject ts"
      by auto
    have "readFields n s' fs = Some ts"
      using "2.IH"(1) [OF a ObjectCell r "2.prems"(2)] .
    then show ?thesis using a' eq ObjectCell t by simp
  next
    case (ArrayCell xs)
    from "2.prems"(1) a ArrayCell obtain us where
      r: "readItems n s xs = Some us" and t: "t = JArray us"
      by auto
    have "readItems n s' xs = Some us"
      using "2.IH"(2) [OF a ArrayCell r "2.prems"(2)] .
    then show ?thesis using a' eq ArrayCell t by simp
  qed
next
  case (9 n s key v fs)
  from "9.prems"(1) obtain t1 ts1 where
    a: "readValue n s v = Some t1" and b: "readFields n s fs = Some ts1"
    and ts: "ts = (key, t1) # ts1"
    by (auto split: option.splits)
  show ?case
    using "9.IH"(1) [OF a "9.prems"(2)] "9.IH"(2) [OF a b "9.prems"(2)] ts by simp
next
  case (11 n s v xs)
  from "11.prems"(1) obtain t1 us1 where
    a: "readValue n s v = Some t1" and b: "readItems n s xs = Some us1"
    and us: "us = t1 # us1"
    by (auto split: option.splits)
  show ?case
    using "11.IH"(1) [OF a "11.prems"(2)] "11.IH"(2) [OF a b "11.prems"(2)] us by simp
qed auto

subsection \<open>A value that can be read can be copied\<close>

lemma deepCloneS_total:
  "readValue n s v = Some t \<Longrightarrow> \<exists>v' e. deepCloneS n (s @ ext) v = Some (v', s @ ext @ e)"
  "readFields n s fs = Some ts \<Longrightarrow> \<exists>fs' e. cloneFields n (s @ ext) fs = Some (fs', s @ ext @ e)"
  "readItems n s xs = Some us \<Longrightarrow> \<exists>xs' e. cloneItems n (s @ ext) xs = Some (xs', s @ ext @ e)"
proof (induction n s v and n s fs and n s xs arbitrary: t ext and ts ext and us ext
    rule: readValue_readFields_readItems.induct)
  case (2 n s a)
  from "2.prems"(1) have a: "a < length s" by (simp split: if_splits)
  then have a': "a < length (s @ ext)" and eq: "(s @ ext) ! a = s ! a"
    by (simp_all add: nth_append)
  show ?case
  proof (cases "s ! a")
    case (ObjectCell fs)
    from "2.prems"(1) a ObjectCell obtain ts where r: "readFields n s fs = Some ts"
      by auto
    obtain fs' e where "cloneFields n (s @ ext) fs = Some (fs', s @ ext @ e)"
      using "2.IH"(1) [OF a ObjectCell r] by blast
    then have "deepCloneS (Suc n) (s @ ext) (HRef a) =
        Some (HRef (length (s @ ext @ e)), s @ ext @ (e @ [ObjectCell fs']))"
      using a' eq ObjectCell by simp
    then show ?thesis by blast
  next
    case (ArrayCell xs)
    from "2.prems"(1) a ArrayCell obtain us where r: "readItems n s xs = Some us"
      by auto
    obtain xs' e where "cloneItems n (s @ ext) xs = Some (xs', s @ ext @ e)"
      using "2.IH"(2) [OF a ArrayCell r] by blast
    then have "deepCloneS (Suc n) (s @ ext) (HRef a) =
        Some (HRef (length (s @ ext @ e)), s @ ext @ (e @ [ArrayCell xs']))"
      using a' eq ArrayCell by simp
    then show ?thesis by blast
  qed
next
  case (9 n s key v fs)
  from "9.prems"(1) obtain t1 ts1 where
    a: "readValue n s v = Some t1" and b: "readFields n s fs = Some ts1"
    by (auto split: option.splits)
  obtain v' e1 where c1: "deepCloneS n (s @ ext) v = Some (v', s @ ext @ e1)"
    using "9.IH"(1) [OF a] by blast
  obtain fs' e2 where c2: "cloneFields n (s @ (ext @ e1)) fs = Some (fs', s @ (ext @ e1) @ e2)"
    using "9.IH"(2) [OF a b] by blast
  have "cloneFields n (s @ ext) ((key, v) # fs) = Some ((key, v') # fs', s @ ext @ (e1 @ e2))"
    using c1 c2 by simp
  then show ?case by blast
next
  case (11 n s v xs)
  from "11.prems"(1) obtain t1 us1 where
    a: "readValue n s v = Some t1" and b: "readItems n s xs = Some us1"
    by (auto split: option.splits)
  obtain v' e1 where c1: "deepCloneS n (s @ ext) v = Some (v', s @ ext @ e1)"
    using "11.IH"(1) [OF a] by blast
  obtain xs' e2 where c2: "cloneItems n (s @ (ext @ e1)) xs = Some (xs', s @ (ext @ e1) @ e2)"
    using "11.IH"(2) [OF a b] by blast
  have "cloneItems n (s @ ext) (v # xs) = Some (v' # xs', s @ ext @ (e1 @ e2))"
    using c1 c2 by simp
  then show ?case by blast
qed auto

lemma read_object: "readValue n s v = Some (JObject d) \<Longrightarrow> isObjectS s v"
  by (cases n; cases v) (auto simp: isObjectS_def split: if_splits cell.splits)

text \<open>
  C3, for the results that are truthy. For every document that is an object of the
  store: the transform is called with a copy and the call returns. When the transform
  returns a truthy value that is not an object, the call raises the TypeError; when it
  returns a falsy value (\<^verbatim>\<open>null\<close>, \<^verbatim>\<open>undefined\<close>, \<^verbatim>\<open>false\<close>, 0, NaN or the empty
  string), the call returns the deletion signal. In both cases, unless the transform
  itself wrote to a cell of the caller, every cell that was in the store before the call
  is the same after it, and the document reads as it did.
\<close>

theorem transform_not_object_raises:
  assumes doc: "readValue n s document = Some (JObject d)"
  shows "\<exists>newDocument s1 returned s2.
           deepCloneS n s document = Some (newDocument, s1) \<and>
           f s1 newDocument = (returned, s2) \<and>
           (truthyS returned \<and> \<not> isObjectS s2 returned \<longrightarrow>
              updateDocument n s document (UpdateFunction f) =
                Some (Inl (TypeError ''Document must be an object''), s2)) \<and>
           (\<not> truthyS returned \<longrightarrow>
              updateDocument n s document (UpdateFunction f) = Some (Inr None, s2)) \<and>
           (same (length s) s1 s2 \<longrightarrow>
              (\<forall>i<length s. s2 ! i = s ! i) \<and>
              readValue n s2 document = Some (JObject d))"
proof -
  have obj: "isObjectS s document" using doc by (rule read_object)
  obtain newDocument e where c: "deepCloneS n s document = Some (newDocument, s @ e)"
    using deepCloneS_total(1) [OF doc, of "[]"] by auto
  obtain returned s2 where r: "f (s @ e) newDocument = (returned, s2)"
    by (cases "f (s @ e) newDocument")
  have frame: "(\<forall>i<length s. s2 ! i = s ! i) \<and> readValue n s2 document = Some (JObject d)"
    if "same (length s) (s @ e) s2"
  proof -
    have "same (length s) s (s @ e)" by (simp add: same_append)
    then have s2: "same (length s) s s2" using that by (rule same_trans)
    have "readValue n s2 document = Some (JObject d)"
      using doc s2 by (rule readValue_same(1))
    then show ?thesis using s2 by (simp add: same_iff)
  qed
  have "truthyS returned \<and> \<not> isObjectS s2 returned \<longrightarrow>
      updateDocument n s document (UpdateFunction f) =
        Some (Inl (TypeError ''Document must be an object''), s2)"
    using obj c r by (simp add: updateDocument_def workingDocument_def)
  moreover have "\<not> truthyS returned \<longrightarrow>
      updateDocument n s document (UpdateFunction f) = Some (Inr None, s2)"
    using obj c r by (simp add: updateDocument_def workingDocument_def)
  ultimately show ?thesis using c r frame by blast
qed

subsection \<open>What normalisation leaves\<close>

lemma readFields_normalised:
  "\<forall>(key, v) \<in> set fs. v \<noteq> HUndefined \<and> (\<exists>t. readValue n s v = Some t \<and> noAbsentValue t) \<Longrightarrow>
   \<exists>ts. readFields n s fs = Some ts \<and> noAbsentFields ts \<and> length ts = length fs"
proof (induction fs)
  case Nil
  then show ?case by simp
next
  case (Cons f fs)
  obtain key v where f: "f = (key, v)" by (cases f)
  from Cons.prems f obtain t where
    v: "v \<noteq> HUndefined" and t: "readValue n s v = Some t" "noAbsentValue t"
    by auto
  have "t \<noteq> JUndefined" using v t(1) read_undefined by blast
  moreover obtain ts where "readFields n s fs = Some ts" "noAbsentFields ts" "length ts = length fs"
    using Cons by auto
  ultimately show ?case using f t by simp
qed

lemma readItems_normalised:
  "\<forall>v \<in> set xs. \<exists>t. readValue n s v = Some t \<and> noAbsentValue t \<Longrightarrow>
   \<exists>us. readItems n s xs = Some us \<and> noAbsentItems us"
proof (induction xs)
  case Nil
  then show ?case by simp
next
  case (Cons v xs)
  from Cons.prems obtain t where t: "readValue n s v = Some t" "noAbsentValue t"
    by auto
  moreover obtain us where "readItems n s xs = Some us" "noAbsentItems us"
    using Cons by auto
  ultimately show ?case by simp
qed

lemma prepareObjectS_normalises:
  "prepareObjectS n s a = Some s' \<Longrightarrow>
     \<exists>t. readValue n s' (HRef a) = Some t \<and> noAbsentValue t"
  "prepareItems n s xs = Some s' \<Longrightarrow>
     \<forall>v \<in> set xs. \<exists>t. readValue n s' v = Some t \<and> noAbsentValue t"
proof (induction n s a and n s xs arbitrary: s' and s'
    rule: prepareObjectS_prepareItems.induct)
  case (1 s a)
  then show ?case by simp
next
  case (2 n s a)
  from "2.prems" have a: "a < length s" by (simp split: if_splits)
  show ?case
  proof (cases "s ! a")
    case (ObjectCell fs)
    let ?fs0 = "filter (\<lambda>(key, v). v \<noteq> HUndefined) fs"
    let ?s0 = "s[a := ObjectCell ?fs0]"
    have p: "prepareItems n ?s0 (map snd fs) = Some s'"
      using "2.prems" a ObjectCell by simp
    have k: "keeps (length ?s0) ?s0 s'"
      using p by (rule prepareObjectS_keeps(2)) simp
    have "noAbsentCell (?s0 ! a)" using a by (simp add: list_all_iff)
    then have cell: "s' ! a = ObjectCell ?fs0" and a': "a < length s'"
      using k a by (simp_all add: keeps_def)
    have "\<forall>v \<in> set (map snd fs). \<exists>t. readValue n s' v = Some t \<and> noAbsentValue t"
      using "2.IH"(1) [OF a ObjectCell p] .
    then have "\<forall>(key, v) \<in> set ?fs0.
        v \<noteq> HUndefined \<and> (\<exists>t. readValue n s' v = Some t \<and> noAbsentValue t)"
      by auto
    then obtain ts where "readFields n s' ?fs0 = Some ts" "noAbsentFields ts"
      using readFields_normalised by blast
    then show ?thesis using cell a' by simp
  next
    case (ArrayCell xs)
    have p: "prepareItems n s xs = Some s'"
      using "2.prems" a ArrayCell by simp
    have k: "keeps (length s) s s'"
      using p by (rule prepareObjectS_keeps(2)) simp
    have "noAbsentCell (s ! a)" using ArrayCell by simp
    then have cell: "s' ! a = ArrayCell xs" and a': "a < length s'"
      using k a ArrayCell by (simp_all add: keeps_def)
    have "\<forall>v \<in> set xs. \<exists>t. readValue n s' v = Some t \<and> noAbsentValue t"
      using "2.IH"(2) [OF a ArrayCell p] .
    then obtain us where "readItems n s' xs = Some us" "noAbsentItems us"
      using readItems_normalised by blast
    then show ?thesis using cell a' by simp
  qed
next
  case (3 n s)
  then show ?case by simp
next
  case (4 n s b xs)
  from "4.prems" obtain s1 where
    p: "prepareObjectS n s b = Some s1" and q: "prepareItems n s1 xs = Some s'"
    by (auto split: option.splits)
  obtain t where t: "readValue n s1 (HRef b) = Some t" "noAbsentValue t"
    using "4.IH"(1) [OF p] by blast
  have "keeps (length s1) s1 s'"
    using q by (rule prepareObjectS_keeps(2)) simp
  then have "readValue n s' (HRef b) = Some t"
    using t readValue_keeps(1) by blast
  then show ?case using t(2) "4.IH"(2) [OF p q] by simp
qed auto

subsection \<open>A copy reads as its original\<close>

lemma deepCloneS_reads:
  "deepCloneS n s v = Some (v', s') \<Longrightarrow> readValue n s v = Some t \<Longrightarrow>
     readValue n s' v' = Some t"
  "cloneFields n s fs = Some (fs', s') \<Longrightarrow> readFields n s fs = Some ts \<Longrightarrow>
     readFields n s' fs' = Some ts"
  "cloneItems n s xs = Some (xs', s') \<Longrightarrow> readItems n s xs = Some us \<Longrightarrow>
     readItems n s' xs' = Some us"
proof (induction n s v and n s fs and n s xs arbitrary: v' s' t and fs' s' ts and xs' s' us
    rule: deepCloneS_cloneFields_cloneItems.induct)
  case (2 n s a)
  from "2.prems"(1) have a: "a < length s" by (simp split: if_splits)
  show ?case
  proof (cases "s ! a")
    case (ObjectCell fs)
    from "2.prems"(1) a ObjectCell obtain fs1 s1 where
      c: "cloneFields n s fs = Some (fs1, s1)" and v': "v' = HRef (length s1)"
      and s': "s' = s1 @ [ObjectCell fs1]"
      by (auto split: option.splits)
    from "2.prems"(2) a ObjectCell obtain ts where
      r: "readFields n s fs = Some ts" and t: "t = JObject ts"
      by auto
    have "readFields n s1 fs1 = Some ts" using "2.IH"(1) [OF a ObjectCell c r] .
    then have "readFields n s' fs1 = Some ts"
      unfolding s' by (rule readValue_same(2)) (simp add: same_append)
    then show ?thesis using v' s' t by simp
  next
    case (ArrayCell xs)
    from "2.prems"(1) a ArrayCell obtain xs1 s1 where
      c: "cloneItems n s xs = Some (xs1, s1)" and v': "v' = HRef (length s1)"
      and s': "s' = s1 @ [ArrayCell xs1]"
      by (auto split: option.splits)
    from "2.prems"(2) a ArrayCell obtain us where
      r: "readItems n s xs = Some us" and t: "t = JArray us"
      by auto
    have "readItems n s1 xs1 = Some us" using "2.IH"(2) [OF a ArrayCell c r] .
    then have "readItems n s' xs1 = Some us"
      unfolding s' by (rule readValue_same(3)) (simp add: same_append)
    then show ?thesis using v' s' t by simp
  qed
next
  case (9 n s key v fs)
  from "9.prems"(1) obtain v1 s1 fs1 where
    c1: "deepCloneS n s v = Some (v1, s1)" and c2: "cloneFields n s1 fs = Some (fs1, s')"
    and fs': "fs' = (key, v1) # fs1"
    by (auto split: option.splits)
  from "9.prems"(2) obtain t1 ts1 where
    r1: "readValue n s v = Some t1" and r2: "readFields n s fs = Some ts1"
    and ts: "ts = (key, t1) # ts1"
    by (auto split: option.splits)
  have "readValue n s1 v1 = Some t1" using "9.IH"(1) [OF c1 r1] .
  moreover obtain e where "s' = s1 @ e" using deepCloneS_extends(2) [OF c2] by blast
  ultimately have a: "readValue n s' v1 = Some t1"
    using readValue_same(1) same_append by blast
  have "readFields n s1 fs = Some ts1"
    using r2 deepCloneS_same [OF c1] by (rule readValue_same(2))
  then have "readFields n s' fs1 = Some ts1" using "9.IH"(2) [OF c1 refl c2] by blast
  then show ?case using a fs' ts by simp
next
  case (11 n s v xs)
  from "11.prems"(1) obtain v1 s1 xs1 where
    c1: "deepCloneS n s v = Some (v1, s1)" and c2: "cloneItems n s1 xs = Some (xs1, s')"
    and xs': "xs' = v1 # xs1"
    by (auto split: option.splits)
  from "11.prems"(2) obtain t1 us1 where
    r1: "readValue n s v = Some t1" and r2: "readItems n s xs = Some us1"
    and us: "us = t1 # us1"
    by (auto split: option.splits)
  have "readValue n s1 v1 = Some t1" using "11.IH"(1) [OF c1 r1] .
  moreover obtain e where "s' = s1 @ e" using deepCloneS_extends(3) [OF c2] by blast
  ultimately have a: "readValue n s' v1 = Some t1"
    using readValue_same(1) same_append by blast
  have "readItems n s1 xs = Some us1"
    using r2 deepCloneS_same [OF c1] by (rule readValue_same(3))
  then have "readItems n s' xs1 = Some us1" using "11.IH"(2) [OF c1 refl c2] by blast
  then show ?case using a xs' us by simp
qed auto

lemma readFields_length: "readFields n s fs = Some ts \<Longrightarrow> length ts = length fs"
proof (induction fs arbitrary: ts)
  case Nil
  then show ?case by simp
next
  case (Cons f fs)
  obtain key v where f: "f = (key, v)" by (cases f)
  from Cons.prems f obtain t ts1 where "readFields n s fs = Some ts1" "ts = (key, t) # ts1"
    by (auto split: option.splits)
  then show ?case using Cons.IH by simp
qed

lemma finishDocument_normalised:
  assumes "finishDocument n s v = Some (Inr (Some updated), s')"
  shows "\<exists>ts. readValue n s' updated = Some (JObject ts) \<and> noAbsentFields ts \<and> ts \<noteq> []"
proof -
  from assms obtain a s1 where v: "v = HRef a" and p: "prepareObjectS n s a = Some s1"
    by (auto simp: finishDocument_def split: hvalue.splits option.splits)
  from assms v p have ne: "fieldsAt s1 a \<noteq> []"
    and c: "deepCloneS n s1 (HRef a) = Some (updated, s')"
    by (auto simp: finishDocument_def isObjectEmpty_def split: if_splits option.splits)
  obtain t where t: "readValue n s1 (HRef a) = Some t" "noAbsentValue t"
    using prepareObjectS_normalises(1) [OF p] by blast
  obtain m where n: "n = Suc m" using p by (cases n) auto
  from ne obtain fs where cell: "a < length s1" "s1 ! a = ObjectCell fs" "fs \<noteq> []"
    by (auto simp: fieldsAt_def split: if_splits cell.splits)
  from t(1) n cell obtain ts where r: "readFields m s1 fs = Some ts" and tt: "t = JObject ts"
    by auto
  have "ts \<noteq> []" using readFields_length [OF r] cell(3) by auto
  moreover have "readValue n s' updated = Some t" using c t(1) by (rule deepCloneS_reads(1))
  ultimately show ?thesis using t(2) tt by simp
qed

text \<open>
  C4. For every document and every update, a field map or a transform: a document
  that \<^verbatim>\<open>updateDocument\<close> returns reads from the store as an object that has a field
  and has no field holding the absent marker at any depth; and when normalisation leaves
  the working document without fields, \<^verbatim>\<open>updateDocument\<close> returns the deletion signal.
\<close>

theorem updateDocument_normalised:
  "(updateDocument n s document update = Some (Inr (Some updated), s') \<longrightarrow>
      (\<exists>ts. readValue n s' updated = Some (JObject ts) \<and> noAbsentFields ts \<and> ts \<noteq> [])) \<and>
   (workingDocument n s document update = Some (Inr (Some (HRef a)), s2) \<and>
    prepareObjectS n s2 a = Some s3 \<and> fieldsAt s3 a = [] \<longrightarrow>
      updateDocument n s document update = Some (Inr None, s3))"
proof (intro conjI impI)
  assume run: "updateDocument n s document update = Some (Inr (Some updated), s')"
  then obtain w s2 where "finishDocument n s2 w = Some (Inr (Some updated), s')"
    by (auto simp: updateDocument_def split: option.splits sum.splits)
  then show "\<exists>ts. readValue n s' updated = Some (JObject ts) \<and> noAbsentFields ts \<and> ts \<noteq> []"
    by (rule finishDocument_normalised)
next
  assume "workingDocument n s document update = Some (Inr (Some (HRef a)), s2) \<and>
    prepareObjectS n s2 a = Some s3 \<and> fieldsAt s3 a = []"
  then show "updateDocument n s document update = Some (Inr None, s3)"
    by (simp add: updateDocument_def finishDocument_def isObjectEmpty_def)
qed

text \<open>
  The theorem at the document \<^verbatim>\<open>{a: 1}\<close>: the update \<^verbatim>\<open>{b: {x: undefined, y: null}}\<close>
  returns a document that reads \<^verbatim>\<open>{a: 1, b: {y: null}}\<close>, and an update whose function
  deletes the field a returns the deletion signal.
\<close>

theorem updateDocument_normalised_witness:
  "updateDocument 2
     [ObjectCell [(''a'', HNumber (Finite 1))], ObjectCell [(''x'', HUndefined), (''y'', HNull)]]
     (HRef 0) (UpdateObject [(''b'', UValue (HRef 1))]) =
     Some (Inr (Some (HRef 4)),
       [ObjectCell [(''a'', HNumber (Finite 1))], ObjectCell [(''y'', HNull)],
        ObjectCell [(''a'', HNumber (Finite 1)), (''b'', HRef 1)],
        ObjectCell [(''y'', HNull)],
        ObjectCell [(''a'', HNumber (Finite 1)), (''b'', HRef 3)]]) \<and>
   (\<exists>ts. readValue 2
       [ObjectCell [(''a'', HNumber (Finite 1))], ObjectCell [(''y'', HNull)],
        ObjectCell [(''a'', HNumber (Finite 1)), (''b'', HRef 1)],
        ObjectCell [(''y'', HNull)],
        ObjectCell [(''a'', HNumber (Finite 1)), (''b'', HRef 3)]] (HRef 4) = Some (JObject ts) \<and>
      noAbsentFields ts \<and> ts \<noteq> []) \<and>
   readValue 2
       [ObjectCell [(''a'', HNumber (Finite 1))], ObjectCell [(''y'', HNull)],
        ObjectCell [(''a'', HNumber (Finite 1)), (''b'', HRef 1)],
        ObjectCell [(''y'', HNull)],
        ObjectCell [(''a'', HNumber (Finite 1)), (''b'', HRef 3)]] (HRef 4) =
     Some (JObject [(''a'', JNumber (Finite 1)), (''b'', JObject [(''y'', JNull)])]) \<and>
   workingDocument 1 [ObjectCell [(''a'', HNumber (Finite 1))]] (HRef 0)
     (UpdateObject [(''a'', UFunction (\<lambda>s v. (HUndefined, s)))]) =
     Some (Inr (Some (HRef 1)), [ObjectCell [(''a'', HNumber (Finite 1))], ObjectCell []]) \<and>
   prepareObjectS 1 [ObjectCell [(''a'', HNumber (Finite 1))], ObjectCell []] 1 =
     Some [ObjectCell [(''a'', HNumber (Finite 1))], ObjectCell []] \<and>
   fieldsAt [ObjectCell [(''a'', HNumber (Finite 1))], ObjectCell []] 1 = [] \<and>
   updateDocument 1 [ObjectCell [(''a'', HNumber (Finite 1))]] (HRef 0)
     (UpdateObject [(''a'', UFunction (\<lambda>s v. (HUndefined, s)))]) =
     Some (Inr None, [ObjectCell [(''a'', HNumber (Finite 1))], ObjectCell []])"
proof -
  let ?s = "[ObjectCell [(''a'', HNumber (Finite 1))], ObjectCell [(''x'', HUndefined), (''y'', HNull)]]"
  let ?s' = "[ObjectCell [(''a'', HNumber (Finite 1))], ObjectCell [(''y'', HNull)],
        ObjectCell [(''a'', HNumber (Finite 1)), (''b'', HRef 1)],
        ObjectCell [(''y'', HNull)],
        ObjectCell [(''a'', HNumber (Finite 1)), (''b'', HRef 3)]]"
  let ?t = "[ObjectCell [(''a'', HNumber (Finite 1))]]"
  let ?t' = "[ObjectCell [(''a'', HNumber (Finite 1))], ObjectCell []]"
  let ?del = "UpdateObject [(''a'', UFunction (\<lambda>s v. (HUndefined, s)))]"
  have run: "updateDocument 2 ?s (HRef 0) (UpdateObject [(''b'', UValue (HRef 1))]) =
      Some (Inr (Some (HRef 4)), ?s')"
    by (simp add: updateDocument_def workingDocument_def finishDocument_def isObjectS_def
        numeral_2_eq_2 getFieldS_def fieldsAt_def setFieldS_def isObjectEmpty_def)
  have clean: "\<exists>ts. readValue 2 ?s' (HRef 4) = Some (JObject ts) \<and> noAbsentFields ts \<and> ts \<noteq> []"
    using run updateDocument_normalised [of 2 ?s "HRef 0" "UpdateObject [(''b'', UValue (HRef 1))]"
        "HRef 4" ?s']
    by blast
  have read: "readValue 2 ?s' (HRef 4) =
      Some (JObject [(''a'', JNumber (Finite 1)), (''b'', JObject [(''y'', JNull)])])"
    by (simp add: numeral_2_eq_2)
  have work: "workingDocument 1 ?t (HRef 0) ?del = Some (Inr (Some (HRef 1)), ?t') \<and>
      prepareObjectS 1 ?t' 1 = Some ?t' \<and> fieldsAt ?t' 1 = []"
    by (simp add: workingDocument_def isObjectS_def getFieldS_def fieldsAt_def deleteFieldS_def
        deleteField_def)
  have gone: "updateDocument 1 ?t (HRef 0) ?del = Some (Inr None, ?t')"
    using work updateDocument_normalised [of 1 ?t "HRef 0" ?del _ _ 1 ?t' ?t']
    by blast
  show ?thesis using run clean read work gone by (intro conjI) simp_all
qed

text \<open>
  With every result that is not an object in place of the truthy ones the statement
  fails: where the transform returns 0, which is neither an object nor \<^verbatim>\<open>null\<close>, the
  call returns the deletion signal and raises nothing.
\<close>

theorem transform_returns_zero_counterexample:
  "updateDocument 1 [ObjectCell [(''a'', HNumber (Finite 1))]] (HRef 0)
     (UpdateFunction (\<lambda>s v. (HNumber (Finite 0), s))) =
     Some (Inr None,
           [ObjectCell [(''a'', HNumber (Finite 1))], ObjectCell [(''a'', HNumber (Finite 1))]]) \<and>
   \<not> isObjectS
       [ObjectCell [(''a'', HNumber (Finite 1))], ObjectCell [(''a'', HNumber (Finite 1))]]
       (HNumber (Finite 0)) \<and>
   HNumber (Finite 0) \<noteq> HNull \<and> HNumber (Finite 0) \<noteq> HUndefined"
  by (simp add: updateDocument_def workingDocument_def isObjectS_def)

text \<open>
  The theorem at the document \<^verbatim>\<open>{a: 1}\<close> and a transform that marks its argument, the
  copy, and returns a string: the call raises, and the document is as it was.
\<close>

theorem transform_not_object_raises_witness:
  "readValue 1 [ObjectCell [(''a'', HNumber (Finite 1))]] (HRef 0) =
     Some (JObject [(''a'', JNumber (Finite 1))]) \<and>
   updateDocument 1 [ObjectCell [(''a'', HNumber (Finite 1))]] (HRef 0)
     (UpdateFunction
        (\<lambda>s v. (HString ''oops'',
                 case v of HRef a \<Rightarrow> setFieldS s a ''seen'' (HBoolean True) | _ \<Rightarrow> s))) =
     Some (Inl (TypeError ''Document must be an object''),
           [ObjectCell [(''a'', HNumber (Finite 1))],
            ObjectCell [(''a'', HNumber (Finite 1)), (''seen'', HBoolean True)]]) \<and>
   [ObjectCell [(''a'', HNumber (Finite 1))],
    ObjectCell [(''a'', HNumber (Finite 1)), (''seen'', HBoolean True)]] ! 0 =
     [ObjectCell [(''a'', HNumber (Finite 1))]] ! 0 \<and>
   readValue 1
     [ObjectCell [(''a'', HNumber (Finite 1))],
      ObjectCell [(''a'', HNumber (Finite 1)), (''seen'', HBoolean True)]] (HRef 0) =
     Some (JObject [(''a'', JNumber (Finite 1))])"
proof -
  let ?s = "[ObjectCell [(''a'', HNumber (Finite 1))]]"
  let ?f = "\<lambda>s v. (HString ''oops'',
                 case v of HRef a \<Rightarrow> setFieldS s a ''seen'' (HBoolean True) | _ \<Rightarrow> s)"
  let ?s2 = "[ObjectCell [(''a'', HNumber (Finite 1))],
              ObjectCell [(''a'', HNumber (Finite 1)), (''seen'', HBoolean True)]]"
  have doc: "readValue 1 ?s (HRef 0) = Some (JObject [(''a'', JNumber (Finite 1))])"
    by simp
  have clone: "deepCloneS 1 ?s (HRef 0) = Some (HRef 1, ?s @ [ObjectCell [(''a'', HNumber (Finite 1))]])"
    by simp
  have call: "?f (?s @ [ObjectCell [(''a'', HNumber (Finite 1))]]) (HRef 1) = (HString ''oops'', ?s2)"
    by (simp add: setFieldS_def)
  have wrong: "truthyS (HString ''oops'') \<and> \<not> isObjectS ?s2 (HString ''oops'')"
    by (simp add: isObjectS_def)
  have frame: "same (length ?s) (?s @ [ObjectCell [(''a'', HNumber (Finite 1))]]) ?s2"
    by (simp add: same_def)
  from transform_not_object_raises [OF doc, of ?f] obtain newDocument s1 returned s2 where
    c: "deepCloneS 1 ?s (HRef 0) = Some (newDocument, s1)"
    and r: "?f s1 newDocument = (returned, s2)"
    and raises: "truthyS returned \<and> \<not> isObjectS s2 returned \<longrightarrow>
      updateDocument 1 ?s (HRef 0) (UpdateFunction ?f) =
        Some (Inl (TypeError ''Document must be an object''), s2)"
    and kept: "same (length ?s) s1 s2 \<longrightarrow>
      (\<forall>i<length ?s. s2 ! i = ?s ! i) \<and>
      readValue 1 s2 (HRef 0) = Some (JObject [(''a'', JNumber (Finite 1))])"
    by blast
  have n: "newDocument = HRef 1" and s1: "s1 = ?s @ [ObjectCell [(''a'', HNumber (Finite 1))]]"
    using c clone by simp_all
  have ret: "returned = HString ''oops''" and s2: "s2 = ?s2"
    using r call unfolding n s1 by simp_all
  have "updateDocument 1 ?s (HRef 0) (UpdateFunction ?f) =
        Some (Inl (TypeError ''Document must be an object''), ?s2)"
    using raises wrong unfolding ret s2 by blast
  moreover have "(\<forall>i<length ?s. ?s2 ! i = ?s ! i) \<and>
      readValue 1 ?s2 (HRef 0) = Some (JObject [(''a'', JNumber (Finite 1))])"
    using kept frame unfolding s1 s2 by blast
  ultimately show ?thesis using doc by simp
qed

subsection \<open>Normalisation in place and normalisation of values\<close>

text \<open>
  The store model and the value model of \<^verbatim>\<open>prepareObject\<close> are two models of one
  function. \<^term>\<open>strips s s'\<close>: every cell of the first store is in the second, the
  same but for fields that hold the absent marker.
\<close>

fun sameButAbsent :: "cell \<Rightarrow> cell \<Rightarrow> bool" where
  "sameButAbsent (ObjectCell fs) (ObjectCell fs') =
     (filter (\<lambda>(key, v). v \<noteq> HUndefined) fs' = filter (\<lambda>(key, v). v \<noteq> HUndefined) fs)"
| "sameButAbsent (ArrayCell xs) (ArrayCell xs') = (xs' = xs)"
| "sameButAbsent c c' = False"

definition strips :: "store \<Rightarrow> store \<Rightarrow> bool" where
  "strips s s' = (length s \<le> length s' \<and> (\<forall>i<length s. sameButAbsent (s ! i) (s' ! i)))"

lemma sameButAbsent_refl: "sameButAbsent c c"
  by (cases c) simp_all

lemma sameButAbsent_trans: "sameButAbsent c c1 \<Longrightarrow> sameButAbsent c1 c2 \<Longrightarrow> sameButAbsent c c2"
  by (cases c; cases c1; cases c2) simp_all

lemma strips_refl: "strips s s"
  by (simp add: strips_def sameButAbsent_refl)

lemma strips_trans: "strips s s1 \<Longrightarrow> strips s1 s2 \<Longrightarrow> strips s s2"
  using sameButAbsent_trans by (fastforce simp: strips_def)

lemma prepareObjectS_strips:
  "prepareObjectS n s a = Some s' \<Longrightarrow> strips s s'"
  "prepareItems n s xs = Some s' \<Longrightarrow> strips s s'"
proof (induction n s a and n s xs arbitrary: s' and s'
    rule: prepareObjectS_prepareItems.induct)
  case (2 n s a)
  from "2.prems" have a: "a < length s" by (simp split: if_splits)
  show ?case
  proof (cases "s ! a")
    case (ObjectCell fs)
    let ?s0 = "s[a := ObjectCell (filter (\<lambda>(key, v). v \<noteq> HUndefined) fs)]"
    have p: "prepareItems n ?s0 (map snd fs) = Some s'"
      using "2.prems" a ObjectCell by simp
    have "strips s ?s0"
      using a ObjectCell by (auto simp: strips_def nth_list_update sameButAbsent_refl)
    moreover have "strips ?s0 s'" using "2.IH"(1) [OF a ObjectCell p] .
    ultimately show ?thesis by (rule strips_trans)
  next
    case (ArrayCell xs)
    have p: "prepareItems n s xs = Some s'"
      using "2.prems" a ArrayCell by simp
    show ?thesis using "2.IH"(2) [OF a ArrayCell p] .
  qed
next
  case (4 n s b xs)
  from "4.prems" obtain s1 where
    p: "prepareObjectS n s b = Some s1" and q: "prepareItems n s1 xs = Some s'"
    by (auto split: option.splits)
  show ?case using "4.IH"(1) [OF p] "4.IH"(2) [OF p q] by (rule strips_trans)
qed (auto simp: strips_refl)

lemma readFields_filter:
  "readFields n s fs = Some ts \<Longrightarrow>
   readFields n s (filter (\<lambda>(key, v). v \<noteq> HUndefined) fs) =
     Some (filter (\<lambda>(key, t). t \<noteq> JUndefined) ts)"
proof (induction fs arbitrary: ts)
  case Nil
  then show ?case by simp
next
  case (Cons f fs)
  obtain key v where f: "f = (key, v)" by (cases f)
  from Cons.prems f obtain t ts1 where
    r: "readValue n s v = Some t" "readFields n s fs = Some ts1" and ts: "ts = (key, t) # ts1"
    by (auto split: option.splits)
  have "t = JUndefined \<longleftrightarrow> v = HUndefined"
  proof
    assume "t = JUndefined"
    then show "v = HUndefined" using r(1) read_undefined by blast
  next
    assume "v = HUndefined"
    then show "t = JUndefined" using r(1) by simp
  qed
  then show ?case using Cons.IH [OF r(2)] r f ts by simp
qed

lemma readFields_unfilter:
  "readFields n s (filter (\<lambda>(key, v). v \<noteq> HUndefined) fs) = Some us \<Longrightarrow>
   \<exists>ts. readFields n s fs = Some ts \<and> filter (\<lambda>(key, t). t \<noteq> JUndefined) ts = us"
proof (induction fs arbitrary: us)
  case Nil
  then show ?case by simp
next
  case (Cons f fs)
  obtain key v where f: "f = (key, v)" by (cases f)
  show ?case
  proof (cases "v = HUndefined")
    case True
    then obtain ts where "readFields n s fs = Some ts"
      "filter (\<lambda>(key, t). t \<noteq> JUndefined) ts = us"
      using Cons f by auto
    then show ?thesis using True f by simp
  next
    case False
    with Cons.prems f obtain t us1 where
      r: "readValue n s v = Some t"
        "readFields n s (filter (\<lambda>(key, v). v \<noteq> HUndefined) fs) = Some us1"
      and us: "us = (key, t) # us1"
      by (auto split: option.splits)
    have "t \<noteq> JUndefined" using False r(1) read_undefined by blast
    moreover obtain ts where "readFields n s fs = Some ts"
      "filter (\<lambda>(key, t). t \<noteq> JUndefined) ts = us1"
      using Cons.IH [OF r(2)] by blast
    ultimately show ?thesis using r(1) f us by simp
  qed
qed

lemma prepareObject_filter:
  "prepareObject (filter (\<lambda>(key, t). t \<noteq> JUndefined) ts) = prepareObject ts"
  by (induction ts) auto

lemma prepareValue_undefined_iff: "prepareValue t = JUndefined \<longleftrightarrow> t = JUndefined"
  using prepareValue_not_undefined by (cases t) auto

lemma readValue_strips:
  "readValue n s v = Some t \<Longrightarrow> strips s s' \<Longrightarrow>
     \<exists>t'. readValue n s' v = Some t' \<and> prepareValue t' = prepareValue t"
  "readFields n s fs = Some ts \<Longrightarrow> strips s s' \<Longrightarrow>
     \<exists>ts'. readFields n s' fs = Some ts' \<and> prepareObject ts' = prepareObject ts"
  "readItems n s xs = Some us \<Longrightarrow> strips s s' \<Longrightarrow>
     \<exists>us'. readItems n s' xs = Some us' \<and> prepareArray us' = prepareArray us"
proof (induction n s v and n s fs and n s xs arbitrary: t and ts and us
    rule: readValue_readFields_readItems.induct)
  case (2 n s a)
  from "2.prems"(1) have a: "a < length s" by (simp split: if_splits)
  then have a': "a < length s'" and rel: "sameButAbsent (s ! a) (s' ! a)"
    using "2.prems"(2) by (simp_all add: strips_def)
  show ?case
  proof (cases "s ! a")
    case (ObjectCell fs)
    from rel ObjectCell obtain fs' where
      cell: "s' ! a = ObjectCell fs'"
      and flt: "filter (\<lambda>(key, v). v \<noteq> HUndefined) fs' = filter (\<lambda>(key, v). v \<noteq> HUndefined) fs"
      by (cases "s' ! a") auto
    from "2.prems"(1) a ObjectCell obtain ts where
      r: "readFields n s fs = Some ts" and t: "t = JObject ts"
      by auto
    obtain ts1 where r1: "readFields n s' fs = Some ts1"
      and p1: "prepareObject ts1 = prepareObject ts"
      using "2.IH"(1) [OF a ObjectCell r "2.prems"(2)] by blast
    have "readFields n s' (filter (\<lambda>(key, v). v \<noteq> HUndefined) fs') =
        Some (filter (\<lambda>(key, t). t \<noteq> JUndefined) ts1)"
      unfolding flt using r1 by (rule readFields_filter)
    then obtain ts' where r': "readFields n s' fs' = Some ts'"
      and f': "filter (\<lambda>(key, t). t \<noteq> JUndefined) ts' = filter (\<lambda>(key, t). t \<noteq> JUndefined) ts1"
      using readFields_unfilter by blast
    have "prepareObject ts' = prepareObject ts"
      using f' p1 prepareObject_filter by metis
    then show ?thesis using r' cell a' t by simp
  next
    case (ArrayCell xs)
    from rel ArrayCell have cell: "s' ! a = ArrayCell xs"
      by (cases "s' ! a") auto
    from "2.prems"(1) a ArrayCell obtain us where
      r: "readItems n s xs = Some us" and t: "t = JArray us"
      by auto
    obtain us' where "readItems n s' xs = Some us'" "prepareArray us' = prepareArray us"
      using "2.IH"(2) [OF a ArrayCell r "2.prems"(2)] by blast
    then show ?thesis using cell a' t by simp
  qed
next
  case (9 n s key v fs)
  from "9.prems"(1) obtain t1 ts1 where
    a: "readValue n s v = Some t1" and b: "readFields n s fs = Some ts1"
    and ts: "ts = (key, t1) # ts1"
    by (auto split: option.splits)
  obtain t1' where a': "readValue n s' v = Some t1'" "prepareValue t1' = prepareValue t1"
    using "9.IH"(1) [OF a "9.prems"(2)] by blast
  obtain ts1' where b': "readFields n s' fs = Some ts1'" "prepareObject ts1' = prepareObject ts1"
    using "9.IH"(2) [OF a b "9.prems"(2)] by blast
  have "t1' = JUndefined \<longleftrightarrow> t1 = JUndefined"
    using a'(2) prepareValue_undefined_iff by metis
  then have "prepareObject ((key, t1') # ts1') = prepareObject ((key, t1) # ts1)"
    using a'(2) b'(2) by simp
  then show ?case using a'(1) b'(1) ts by simp
next
  case (11 n s v xs)
  from "11.prems"(1) obtain t1 us1 where
    a: "readValue n s v = Some t1" and b: "readItems n s xs = Some us1"
    and us: "us = t1 # us1"
    by (auto split: option.splits)
  obtain t1' where a': "readValue n s' v = Some t1'" "prepareValue t1' = prepareValue t1"
    using "11.IH"(1) [OF a "11.prems"(2)] by blast
  obtain us1' where b': "readItems n s' xs = Some us1'" "prepareArray us1' = prepareArray us1"
    using "11.IH"(2) [OF a b "11.prems"(2)] by blast
  show ?case using a' b' us by simp
qed auto

lemma prepare_fixed:
  "noAbsentValue t \<Longrightarrow> prepareValue t = t"
  "noAbsentFields ts \<Longrightarrow> prepareObject ts = ts"
  "noAbsentItems us \<Longrightarrow> prepareArray us = us"
  by (induction t and ts and us rule: prepareValue_prepareObject_prepareArray.induct) simp_all

text \<open>
  The two models of \<^verbatim>\<open>prepareObject\<close> agree: after normalisation in place, an object
  reads as the normalisation of what it read before, whatever it shares with others.
\<close>

lemma prepareObjectS_reads:
  assumes p: "prepareObjectS n s a = Some s'" and r: "readValue n s (HRef a) = Some t"
  shows "readValue n s' (HRef a) = Some (prepareValue t)"
proof -
  have "strips s s'" using p by (rule prepareObjectS_strips(1))
  then obtain t' where t': "readValue n s' (HRef a) = Some t'" "prepareValue t' = prepareValue t"
    using readValue_strips(1) [OF r] by blast
  obtain t'' where "readValue n s' (HRef a) = Some t''" "noAbsentValue t''"
    using prepareObjectS_normalises(1) [OF p] by blast
  then have "prepareValue t' = t'" using t'(1) prepare_fixed(1) by simp
  then show ?thesis using t' by simp
qed

lemma finishDocument_reads:
  assumes f: "finishDocument n s (HRef a) = Some (Inr (Some updated), s')"
    and r: "readValue n s (HRef a) = Some t"
  shows "readValue n s' updated = Some (prepareValue t)"
proof -
  from f obtain s1 where p: "prepareObjectS n s a = Some s1"
    and c: "deepCloneS n s1 (HRef a) = Some (updated, s')"
    by (auto simp: finishDocument_def split: option.splits if_splits)
  have "readValue n s1 (HRef a) = Some (prepareValue t)"
    using p r by (rule prepareObjectS_reads)
  with c show ?thesis by (rule deepCloneS_reads(1))
qed
subsection \<open>The document of the caller\<close>












end
